theory Spec2Isabelle
  imports Complex_Main "HOL-Library.Word"
begin

unbundle bit_operations_syntax

section \<open>JavaScript values used by the pipeline\<close>

text \<open>
  A JavaScript string is a sequence of UTF-16 code units; it is modelled as the list of
  its code units (\<open>'0'\<close> is 48, \<open>'1'\<close> is 49). A raw pixel \<open>Buffer\<close> is a list of
  bytes. JavaScript numbers that are counts or indices are \<open>nat\<close>; the ones that are
  fractions (scores, rates, quality parameters) are \<open>real\<close>.
\<close>

type_synonym jsstring = "nat list"
type_synonym byte = "8 word"

subsection \<open>\<open>Number.prototype.toString(radix)\<close> on a non-negative integer\<close>

function natDigits :: "nat \<Rightarrow> nat \<Rightarrow> nat list" where
  "natDigits r n = (if r < 2 \<or> n < r then [n] else natDigits r (n div r) @ [n mod r])"
  by pat_completeness auto
termination
  by (relation "measure snd") auto

declare natDigits.simps [simp del]

definition digitChar :: "nat \<Rightarrow> nat" where
  "digitChar d = (if d < 10 then 48 + d else 87 + d)"

definition toStringRadix :: "nat \<Rightarrow> nat \<Rightarrow> jsstring" where
  "toStringRadix r n = map digitChar (natDigits r n)"

subsection \<open>\<open>String.prototype.padStart\<close> with a one-character filler\<close>

definition padStart :: "nat \<Rightarrow> nat \<Rightarrow> jsstring \<Rightarrow> jsstring" where
  "padStart targetLength fill s = replicate (targetLength - length s) fill @ s"

subsection \<open>\<open>parseInt(string, radix)\<close>\<close>

text \<open>
  \<open>parseInt\<close> skips leading white space, reads an optional sign, strips a \<open>0x\<close> prefix
  when the radix is absent or 16, and converts the longest prefix of digits of the radix;
  it is \<open>NaN\<close> (here \<open>None\<close>) when that prefix is empty.
\<close>

definition isStrWhiteSpaceChar :: "nat \<Rightarrow> bool" where
  "isStrWhiteSpaceChar c \<longleftrightarrow>
     c = 9 \<or> c = 10 \<or> c = 11 \<or> c = 12 \<or> c = 13 \<or> c = 32 \<or> c = 160 \<or> c = 5760
     \<or> (8192 \<le> c \<and> c \<le> 8202) \<or> c = 8232 \<or> c = 8233 \<or> c = 8239 \<or> c = 8287
     \<or> c = 12288 \<or> c = 65279"

definition digitValue :: "nat \<Rightarrow> nat option" where
  "digitValue c =
     (if 48 \<le> c \<and> c \<le> 57 then Some (c - 48)
      else if 97 \<le> c \<and> c \<le> 122 then Some (c - 87)
      else if 65 \<le> c \<and> c \<le> 90 then Some (c - 55)
      else None)"

definition isRadixDigit :: "nat \<Rightarrow> nat \<Rightarrow> bool" where
  "isRadixDigit R c = (case digitValue c of None \<Rightarrow> False | Some d \<Rightarrow> d < R)"

definition digitOf :: "nat \<Rightarrow> nat" where
  "digitOf c = (case digitValue c of None \<Rightarrow> 0 | Some d \<Rightarrow> d)"

definition digitsValue :: "nat \<Rightarrow> nat list \<Rightarrow> nat" where
  "digitsValue R ds = foldl (\<lambda>acc d. acc * R + d) 0 ds"

definition parseInt :: "jsstring \<Rightarrow> nat option \<Rightarrow> int option" where
  "parseInt string radix =
     (let S = dropWhile isStrWhiteSpaceChar string;
          sign = (if S \<noteq> [] \<and> hd S = 45 then - 1 else 1 :: int);
          S1 = (if S \<noteq> [] \<and> (hd S = 43 \<or> hd S = 45) then tl S else S);
          R0 = (case radix of None \<Rightarrow> 0 | Some r \<Rightarrow> r)
      in if R0 \<noteq> 0 \<and> (R0 < 2 \<or> 36 < R0) then None
         else
           let stripPrefix = (R0 = 0 \<or> R0 = 16);
               hex = (stripPrefix \<and> (take 2 S1 = [48, 120] \<or> take 2 S1 = [48, 88]));
               S2 = (if hex then drop 2 S1 else S1);
               R = (if hex then 16 else if R0 = 0 then 10 else R0);
               Z = takeWhile (isRadixDigit R) S2
           in if Z = [] then None
              else Some (sign * int (digitsValue R (map digitOf Z))))"

subsection \<open>\<open>String.fromCharCode\<close>\<close>

definition fromCharCode :: "int option \<Rightarrow> nat" where
  "fromCharCode v = (case v of None \<Rightarrow> 0 | Some n \<Rightarrow> nat (n mod 65536))"

section \<open>Bit codec (models/lsb_steganography.js)\<close>

definition stringToBinary :: "jsstring \<Rightarrow> jsstring" where
  "stringToBinary str = concat (map (\<lambda>char. padStart 8 48 (toStringRadix 2 char)) str)"

text \<open>
  \<open>binary.match(/.{1,8}/g) || []\<close>: the successive greedy matches of one to eight
  characters other than line terminators.
\<close>

definition isLineTerminator :: "nat \<Rightarrow> bool" where
  "isLineTerminator c \<longleftrightarrow> c = 10 \<or> c = 13 \<or> c = 8232 \<or> c = 8233"

function matchChunks :: "jsstring \<Rightarrow> jsstring list" where
  "matchChunks s =
     (if s = [] then []
      else let m = takeWhile (\<lambda>c. \<not> isLineTerminator c) (take 8 s)
           in if m = [] then matchChunks (tl s) else m # matchChunks (drop (length m) s))"
  by pat_completeness auto
termination
  by (relation "measure length") (auto simp: Let_def)

declare matchChunks.simps [simp del]

definition binaryToString :: "jsstring \<Rightarrow> jsstring" where
  "binaryToString binary = map (\<lambda>bin. fromCharCode (parseInt bin (Some 2))) (matchChunks binary)"


section \<open>The imaging library\<close>

text \<open>
  Encoded images (the \<open>Buffer\<close>s holding PNG or JPEG files) are values of an abstract
  type \<open>'img\<close>. The operations of the imaging library \<open>sharp\<close> that the pipeline calls
  are the fields of a record, so that nothing is assumed about them beyond what a theorem
  states. Decoding and the lossy operations can fail on a buffer that is not an image;
  encoding raw pixels as PNG cannot. The pixel loop of the Gaussian-noise transform is
  kept behind the same interface: only its parameter check is modelled below.
\<close>

datatype error =
    MessageTooLong nat nat
  | InvalidMessageLength
  | JpegQualityOutOfRange
  | NoiseSigmaOutOfRange
  | BlurSigmaOutOfRange
  | CropRatioOutOfRange
  | LibraryError

record rawinfo =
  width :: nat
  height :: nat
  channels :: nat

text \<open>\<open>Math.random()\<close>: the stream of the results of its future calls.\<close>

type_synonym rng = "nat \<Rightarrow> real"

record 'img sharp =
  rawAlpha :: "'img \<Rightarrow> error + byte list \<times> rawinfo"
  rawPixels :: "'img \<Rightarrow> error + byte list \<times> rawinfo"
  getMetadata :: "'img \<Rightarrow> error + rawinfo"
  pngOfRaw :: "byte list \<Rightarrow> rawinfo \<Rightarrow> 'img"
  jpegOp :: "'img \<Rightarrow> real \<Rightarrow> error + 'img"
  resizeOp :: "'img \<Rightarrow> real option \<Rightarrow> real option \<Rightarrow> error + 'img"
  blurOp :: "'img \<Rightarrow> real \<Rightarrow> error + 'img"
  rotateOp :: "'img \<Rightarrow> real \<Rightarrow> error + 'img"
  extractOp :: "'img \<Rightarrow> int \<Rightarrow> int \<Rightarrow> int \<Rightarrow> int \<Rightarrow> error + 'img"
  noisePixels :: "rng \<Rightarrow> 'img \<Rightarrow> real \<Rightarrow> (error + 'img) \<times> rng"

text \<open>
  The simplest instance: an image is its raw RGBA bytes with their dimensions, every
  encoding is lossless and the lossy operations leave the pixels alone. It serves as the
  concrete library wherever a statement is evaluated on an input.
\<close>

definition rawSharp :: "(byte list \<times> rawinfo) sharp" where
  "rawSharp =
     \<lparr> rawAlpha = Inr, rawPixels = Inr, getMetadata = (\<lambda>b. Inr (snd b)),
       pngOfRaw = Pair, jpegOp = (\<lambda>b q. Inr b), resizeOp = (\<lambda>b w h. Inr b),
       blurOp = (\<lambda>b s. Inr b), rotateOp = (\<lambda>b a. Inr b),
       extractOp = (\<lambda>b l t w h. Inr b), noisePixels = (\<lambda>r b s. (Inr b, r)) \<rparr>"

definition rgba :: "nat \<Rightarrow> nat \<Rightarrow> rawinfo" where
  "rgba w h = \<lparr> width = w, height = h, channels = 4 \<rparr>"

section \<open>LSB embedding (models/lsb_steganography.js)\<close>

record embed_metadata =
  em_messageLength :: nat
  bitsUsed :: nat
  capacity :: nat

record 'img embed_result =
  stegoImage :: 'img
  metadata :: embed_metadata

text \<open>
  \<open>parseInt(messageBinary[i])\<close> as the operand of \<open>|\<close>: \<open>NaN\<close> counts as 0, and the
  byte stored in the \<open>Buffer\<close> keeps the low eight bits.
\<close>

definition bitOfChar :: "nat \<Rightarrow> byte" where
  "bitOfChar c = (case parseInt [c] None of None \<Rightarrow> 0 | Some v \<Rightarrow> word_of_int v)"

text \<open>
  The loop \<open>for (i = 0; i < messageBinary.length; i++)\<close> over the copy
  \<open>modifiedData\<close>; a write past the end of a \<open>Buffer\<close> is ignored, as \<open>list_update\<close> is.
\<close>

fun embedLoop :: "jsstring \<Rightarrow> nat \<Rightarrow> byte list \<Rightarrow> byte list" where
  "embedLoop [] i modifiedData = modifiedData"
| "embedLoop (c # cs) i modifiedData =
     embedLoop cs (Suc i) (modifiedData[i := (modifiedData ! i AND 0xFE) OR bitOfChar c])"

text \<open>\<open>message.length.toString().padStart(16, '0')\<close>\<close>

definition lengthPrefix :: "nat \<Rightarrow> jsstring" where
  "lengthPrefix n = padStart 16 48 (toStringRadix 10 n)"

definition embedMessage :: "'img sharp \<Rightarrow> 'img \<Rightarrow> jsstring \<Rightarrow> error + 'img embed_result" where
  "embedMessage sh imageBuffer message =
     (case rawAlpha sh imageBuffer of
        Inl e \<Rightarrow> Inl e
      | Inr (data, info) \<Rightarrow>
          let messageLength = lengthPrefix (length message);
              messageBinary = stringToBinary (messageLength @ message);
              maxBits = length data
          in if length messageBinary > maxBits
             then Inl (MessageTooLong (maxBits div 8) (length message))
             else
               let modifiedData = embedLoop messageBinary 0 data
               in Inr \<lparr> stegoImage = pngOfRaw sh modifiedData info,
                        metadata = \<lparr> em_messageLength = length message,
                                     bitsUsed = length messageBinary,
                                     capacity = maxBits \<rparr> \<rparr>)"

subsection \<open>The same function on a heap of Buffers\<close>

text \<open>
  To speak about which \<open>Buffer\<close>s a call writes, the raw buffers live in a heap: a
  \<open>Buffer\<close> is an address, the heap is the list of the contents by address, and a new
  \<open>Buffer\<close> takes the next address. The decoder puts the cover's pixels in a new
  \<open>Buffer\<close> (\<open>data\<close>), \<open>Buffer.from(data)\<close> copies it into another one
  (\<open>modifiedData\<close>), and the loop writes through the address of the copy.
\<close>

type_synonym heap = "byte list list"

definition bufferFrom :: "heap \<Rightarrow> nat \<Rightarrow> heap \<times> nat" where
  "bufferFrom h a = (h @ [h ! a], length h)"

fun embedLoopH :: "jsstring \<Rightarrow> nat \<Rightarrow> nat \<Rightarrow> heap \<Rightarrow> heap" where
  "embedLoopH [] i modifiedData h = h"
| "embedLoopH (c # cs) i modifiedData h =
     embedLoopH cs (Suc i) modifiedData
       (h[modifiedData := (h ! modifiedData)[i := ((h ! modifiedData) ! i AND 0xFE) OR bitOfChar c]])"

definition embedMessageH ::
  "'img sharp \<Rightarrow> heap \<Rightarrow> 'img \<Rightarrow> jsstring \<Rightarrow> (error + 'img embed_result) \<times> heap" where
  "embedMessageH sh h imageBuffer message =
     (case rawAlpha sh imageBuffer of
        Inl e \<Rightarrow> (Inl e, h)
      | Inr (pixels, info) \<Rightarrow>
          let data = length h;
              h1 = h @ [pixels];
              messageLength = lengthPrefix (length message);
              messageBinary = stringToBinary (messageLength @ message);
              maxBits = length (h1 ! data)
          in if length messageBinary > maxBits
             then (Inl (MessageTooLong (maxBits div 8) (length message)), h1)
             else
               let (h2, modifiedData) = bufferFrom h1 data;
                   h3 = embedLoopH messageBinary 0 modifiedData h2
               in (Inr \<lparr> stegoImage = pngOfRaw sh (h3 ! modifiedData) info,
                         metadata = \<lparr> em_messageLength = length message,
                                      bitsUsed = length messageBinary,
                                      capacity = maxBits \<rparr> \<rparr>, h3))"

section \<open>LSB extraction with error-tolerant recovery\<close>

text \<open>\<open>(data[i] & 1).toString()\<close>; past the end \<open>data[i]\<close> is \<open>undefined\<close> and the bit is 0.\<close>

definition lsbChar :: "byte list \<Rightarrow> nat \<Rightarrow> nat" where
  "lsbChar data i = (if i < length data then 48 + unat (data ! i AND 1) else 48)"

definition isPrintable :: "nat \<Rightarrow> bool" where
  "isPrintable c \<longleftrightarrow> 32 \<le> c \<and> c \<le> 126"

definition isPrintableCode :: "int option \<Rightarrow> bool" where
  "isPrintableCode v = (case v of None \<Rightarrow> False | Some n \<Rightarrow> 32 \<le> n \<and> n \<le> 126)"

text \<open>\<open>(message.match(/[ -~]/g) || []).length\<close>\<close>

definition printableCount :: "jsstring \<Rightarrow> nat" where
  "printableCount msg = length (filter isPrintable msg)"

subsection \<open>attemptLengthRecovery\<close>

definition candidatePrintable :: "byte list \<Rightarrow> nat \<Rightarrow> bool" where
  "candidatePrintable data charIdx =
     (let char8bits = map (\<lambda>bitIdx. lsbChar data (128 + charIdx * 8 + bitIdx))
                        (takeWhile (\<lambda>bitIdx. 128 + charIdx * 8 + bitIdx < length data) [0..<8])
      in length char8bits = 8 \<and> isPrintableCode (parseInt char8bits (Some 2)))"

definition candidateScore :: "byte list \<Rightarrow> nat \<Rightarrow> real" where
  "candidateScore data testLength =
     (let printable = length (filter (candidatePrintable data)
                        (takeWhile (\<lambda>charIdx. 128 + charIdx * 8 + 8 \<le> length data) [0..<testLength]))
      in if testLength > 0 then real printable / real testLength else 0)"

definition attemptLengthRecovery :: "byte list \<Rightarrow> nat" where
  "attemptLengthRecovery data =
     fst (foldl (\<lambda>(bestLength, bestScore) testLength.
                   let score = candidateScore data testLength
                   in if score > bestScore then (testLength, score) else (bestLength, bestScore))
                (10, - 1) [1..<101])"

subsection \<open>attemptMessageRecovery\<close>

definition hammingDistance :: "jsstring \<Rightarrow> jsstring \<Rightarrow> nat" where
  "hammingDistance expected char8bits = length (filter (\<lambda>j. expected ! j \<noteq> char8bits ! j) [0..<8])"

definition closestPrintable :: "jsstring \<Rightarrow> jsstring \<times> nat" where
  "closestPrintable char8bits =
     foldl (\<lambda>(bestMatch, bestDistance) code.
              let distance = hammingDistance (padStart 8 48 (toStringRadix 2 code)) char8bits
              in if distance < bestDistance then ([fromCharCode (Some (int code))], distance)
                 else (bestMatch, bestDistance))
           ([], 8) [32..<127]"

definition recoverChar :: "jsstring \<Rightarrow> jsstring \<Rightarrow> jsstring" where
  "recoverChar char8bits recovered =
     (if length char8bits = 8 then
        let charCode = parseInt char8bits (Some 2)
        in if isPrintableCode charCode then recovered @ [fromCharCode charCode]
           else
             let (bestMatch, bestDistance) = closestPrintable char8bits
             in if bestDistance \<le> 3 then recovered @ bestMatch
                else if length recovered = 0 then recovered @ bestMatch
                else recovered
      else recovered)"

function recoverLoop :: "jsstring \<Rightarrow> jsstring \<Rightarrow> jsstring" where
  "recoverLoop messageBinary recovered =
     (if messageBinary = [] then recovered
      else recoverLoop (drop 8 messageBinary) (recoverChar (take 8 messageBinary) recovered))"
  by pat_completeness auto
termination
  by (relation "measure (\<lambda>(b, r). length b)") auto

declare recoverLoop.simps [simp del]

definition attemptMessageRecovery :: "jsstring \<Rightarrow> jsstring" where
  "attemptMessageRecovery messageBinary = recoverLoop messageBinary []"

subsection \<open>extractMessage\<close>

record extract_metadata =
  xm_messageLength :: nat
  bitsExtracted :: nat

record extraction =
  message :: jsstring
  recoveryScore :: real
  bitsRecovered :: nat
  wasCorrupted :: bool
  x_metadata :: extract_metadata

text \<open>The header check: \<open>isNaN(messageLength) || messageLength <= 0 || messageLength > 10000\<close>.\<close>

definition validLength :: "int option \<Rightarrow> bool" where
  "validLength v = (case v of None \<Rightarrow> False | Some n \<Rightarrow> \<not> (n \<le> 0 \<or> n > 10000))"

text \<open>
  The recovery score computed in tolerance mode from the returned message. In
  \<open>extractMessage\<close> the \<open>catch\<close> around \<open>binaryToString(messageBinary)\<close> is left
  out: \<open>binaryToString\<close> has no failing path, so that handler is never entered.
\<close>

definition toleranceScore :: "jsstring \<Rightarrow> real" where
  "toleranceScore msg =
     (let printableScore = (if length msg > 0
                            then real (printableCount msg) / real (length msg) else 0)
      in if printableScore \<ge> 0.9
         then min 1.0 (real (length msg) / real (max (length msg) 30))
         else if printableScore \<ge> 0.5
         then (let lengthScore = real (length msg) / 30
               in printableScore * 0.6 + lengthScore * 0.4)
         else printableScore * 0.3)"

definition extractMessage :: "'img sharp \<Rightarrow> 'img \<Rightarrow> bool \<Rightarrow> error + extraction" where
  "extractMessage sh stegoImageBuffer tolerance =
     (case rawAlpha sh stegoImageBuffer of
        Inl e \<Rightarrow> Inl e
      | Inr (data, info) \<Rightarrow>
          let lengthBinary = map (lsbChar data) [0..<128];
              lengthStr = binaryToString lengthBinary;
              parsed = parseInt lengthStr None
          in if \<not> validLength parsed \<and> \<not> tolerance then Inl InvalidMessageLength
             else
               let messageLength = (if validLength parsed
                                    then (case parsed of Some n \<Rightarrow> nat n | None \<Rightarrow> 0)
                                    else attemptLengthRecovery data);
                   messageBitsNeeded = messageLength * 8;
                   messageBinary = map (lsbChar data) [128..<128 + messageBitsNeeded];
                   decoded = binaryToString messageBinary;
                   looksCorrupted = (tolerance \<and> length decoded > 0 \<and>
                        real (printableCount decoded) / real (length decoded) < 0.7);
                   recovered = attemptMessageRecovery messageBinary;
                   msg = (if looksCorrupted \<and> length recovered > 0 then recovered else decoded);
                   score = (if tolerance then toleranceScore msg else 1.0)
               in Inr \<lparr> message = msg,
                        recoveryScore = score,
                        bitsRecovered = messageBitsNeeded,
                        wasCorrupted = looksCorrupted,
                        x_metadata = \<lparr> xm_messageLength = length msg,
                                       bitsExtracted = messageBitsNeeded + 128 \<rparr> \<rparr>)"

section \<open>Transforms (experiments/transforms.js)\<close>

text \<open>
  A transform specification is the configuration object: \<open>name\<close> or \<open>type\<close>, the
  parameters given at top level, and the optional \<open>params\<close> object. A missing property
  is \<open>None\<close>.
\<close>

record transform_params =
  p_quality :: "real option"
  p_sigma :: "real option"
  p_scale :: "real option"
  p_width :: "real option"
  p_height :: "real option"
  p_angle :: "real option"
  p_ratio :: "real option"
  p_radius :: "real option"
  p_rate :: "real option"

record transform =
  t_name :: "string option"
  t_type :: "string option"
  t_quality :: "real option"
  t_sigma :: "real option"
  t_scale :: "real option"
  t_width :: "real option"
  t_height :: "real option"
  t_rate :: "real option"
  t_params :: "transform_params option"

definition noParams :: transform_params where
  "noParams = \<lparr> p_quality = None, p_sigma = None, p_scale = None, p_width = None,
                p_height = None, p_angle = None, p_ratio = None, p_radius = None,
                p_rate = None \<rparr>"

text \<open>
  JavaScript's \<open>a || b\<close> on optional numbers and strings: \<open>undefined\<close>, \<open>0\<close> and the
  empty string are falsy.
\<close>

definition truthy :: "real option \<Rightarrow> bool" where
  "truthy a = (case a of None \<Rightarrow> False | Some v \<Rightarrow> v \<noteq> 0)"

definition orElse :: "real option \<Rightarrow> real option \<Rightarrow> real option" where
  "orElse a b = (if truthy a then a else b)"

definition orDefault :: "real option \<Rightarrow> real \<Rightarrow> real" where
  "orDefault a d = (case a of None \<Rightarrow> d | Some v \<Rightarrow> if v \<noteq> 0 then v else d)"

definition orElseStr :: "string option \<Rightarrow> string option \<Rightarrow> string option" where
  "orElseStr a b = (case a of None \<Rightarrow> b | Some v \<Rightarrow> if v \<noteq> [] then a else b)"

record 'img image =
  im_name :: string
  buffer :: 'img

definition applyJpeg :: "'img sharp \<Rightarrow> 'img \<Rightarrow> real \<Rightarrow> error + 'img" where
  "applyJpeg sh buf q =
     (if q < 1 \<or> q > 100 then Inl JpegQualityOutOfRange else jpegOp sh buf q)"

definition applyResize :: "'img sharp \<Rightarrow> 'img \<Rightarrow> real option \<Rightarrow> real option \<Rightarrow> error + 'img" where
  "applyResize sh buf w h = (if truthy h then resizeOp sh buf w h else resizeOp sh buf w None)"

definition applyGaussianNoise :: "'img sharp \<Rightarrow> rng \<Rightarrow> 'img \<Rightarrow> real \<Rightarrow> (error + 'img) \<times> rng" where
  "applyGaussianNoise sh r buf s =
     (if s < 0 \<or> s > 1 then (Inl NoiseSigmaOutOfRange, r) else noisePixels sh r buf s)"

text \<open>
  The corruption loop: each round draws a byte index and a bit index from
  \<open>Math.random()\<close> and flips that bit in place.
\<close>

fun corruptLoop :: "nat \<Rightarrow> rng \<Rightarrow> byte list \<Rightarrow> byte list \<times> rng" where
  "corruptLoop 0 r data = (data, r)"
| "corruptLoop (Suc k) r data =
     (let randomByte = nat \<lfloor>r 0 * real (length data)\<rfloor>;
          randomBit = nat \<lfloor>r 1 * 8\<rfloor>
      in corruptLoop k (\<lambda>n. r (n + 2))
           (data[randomByte := (data ! randomByte) XOR push_bit randomBit 1]))"

definition applyBitCorruption :: "'img sharp \<Rightarrow> rng \<Rightarrow> 'img \<Rightarrow> real \<Rightarrow> (error + 'img) \<times> rng" where
  "applyBitCorruption sh r buf corruptionRate =
     (case rawAlpha sh buf of
        Inl e \<Rightarrow> (Inl e, r)
      | Inr (data, info) \<Rightarrow>
          let bytesToCorrupt = nat \<lceil>real (length data) * corruptionRate\<rceil>;
              (corrupted, r') = corruptLoop bytesToCorrupt r data
          in (Inr (pngOfRaw sh corrupted info), r'))"

definition applyBlur :: "'img sharp \<Rightarrow> 'img \<Rightarrow> real \<Rightarrow> error + 'img" where
  "applyBlur sh buf s =
     (if s < 0.3 \<or> s > 1000 then Inl BlurSigmaOutOfRange else blurOp sh buf s)"

definition applyRotation :: "'img sharp \<Rightarrow> 'img \<Rightarrow> real \<Rightarrow> error + 'img" where
  "applyRotation sh buf angle = rotateOp sh buf angle"

definition applyCrop :: "'img sharp \<Rightarrow> 'img \<Rightarrow> real \<Rightarrow> error + 'img" where
  "applyCrop sh buf ratio =
     (if ratio \<le> 0 \<or> ratio > 1 then Inl CropRatioOutOfRange
      else case getMetadata sh buf of
             Inl e \<Rightarrow> Inl e
           | Inr meta \<Rightarrow>
               let newWidth = \<lfloor>real (width meta) * ratio\<rfloor>;
                   newHeight = \<lfloor>real (height meta) * ratio\<rfloor>;
                   left = \<lfloor>(real (width meta) - real_of_int newWidth) / 2\<rfloor>;
                   top = \<lfloor>(real (height meta) - real_of_int newHeight) / 2\<rfloor>
               in extractOp sh buf left top newWidth newHeight)"

text \<open>
  \<open>applyTransform\<close> dispatches on \<open>name || type\<close>, reads the metadata of the output and
  returns the transformed image object (the \<open>image\<close> property of its result, the only one
  the runner reads).
\<close>

definition applyTransform ::
  "'img sharp \<Rightarrow> rng \<Rightarrow> 'img image \<Rightarrow> transform \<Rightarrow> (error + 'img image) \<times> rng" where
  "applyTransform sh r img tr =
     (let ps = (case t_params tr of None \<Rightarrow> noParams | Some p \<Rightarrow> p);
          transformType = orElseStr (t_name tr) (t_type tr);
          buf = buffer img;
          (transformed, r') =
            (if transformType = Some ''jpeg'' \<or> transformType = Some ''jpeg-compression''
             then (applyJpeg sh buf (orDefault (orElse (t_quality tr) (p_quality ps)) 75), r)
             else if transformType = Some ''noise'' \<or> transformType = Some ''gaussian_noise''
                   \<or> transformType = Some ''gaussian-noise''
             then applyGaussianNoise sh r buf (orDefault (orElse (t_sigma tr) (p_sigma ps)) 0.05)
             else if transformType = Some ''resize''
             then (if truthy (orElse (t_scale tr) (p_scale ps))
                   then (case getMetadata sh buf of
                           Inl e \<Rightarrow> Inl e
                         | Inr meta \<Rightarrow>
                             let sc = orDefault (orElse (t_scale tr) (p_scale ps)) 0
                             in applyResize sh buf
                                  (Some (real_of_int \<lfloor>real (width meta) * sc\<rfloor>))
                                  (Some (real_of_int \<lfloor>real (height meta) * sc\<rfloor>)))
                   else applyResize sh buf (orElse (t_width tr) (p_width ps))
                          (orElse (t_height tr) (p_height ps)), r)
             else if transformType = Some ''rotation''
             then (applyRotation sh buf (orDefault (p_angle ps) 45), r)
             else if transformType = Some ''crop''
             then (applyCrop sh buf (orDefault (p_ratio ps) 0.8), r)
             else if transformType = Some ''blur''
             then (applyBlur sh buf (orDefault (orElse (p_sigma ps) (p_radius ps)) 3), r)
             else if transformType = Some ''bit-corruption'' \<or> transformType = Some ''bit_corruption''
                   \<or> transformType = Some ''bitcorruption''
             then applyBitCorruption sh r buf (orDefault (orElse (t_rate tr) (p_rate ps)) 0.3)
             else (Inr buf, r))
      in case transformed of
           Inl e \<Rightarrow> (Inl e, r')
         | Inr transformedBuffer \<Rightarrow>
             (case getMetadata sh transformedBuffer of
                Inl e \<Rightarrow> (Inl e, r')
              | Inr meta \<Rightarrow>
                  (Inr \<lparr> im_name = im_name img @ ''_'' @
                                     (case t_type tr of None \<Rightarrow> ''undefined'' | Some t \<Rightarrow> t),
                         buffer = transformedBuffer \<rparr>, r')))"

section \<open>Compositions the properties speak of\<close>

text \<open>
  Embedding followed by extraction from the stego image, and embedding followed by the
  bit-corruption transform and tolerant extraction from its output.
\<close>

definition embedThenExtract :: "'img sharp \<Rightarrow> 'img \<Rightarrow> jsstring \<Rightarrow> bool \<Rightarrow> error + extraction" where
  "embedThenExtract sh cover msg tolerance =
     (case embedMessage sh cover msg of
        Inl e \<Rightarrow> Inl e
      | Inr r \<Rightarrow> extractMessage sh (stegoImage r) tolerance)"

definition embedCorruptExtract ::
  "'img sharp \<Rightarrow> rng \<Rightarrow> 'img \<Rightarrow> jsstring \<Rightarrow> real \<Rightarrow> error + extraction" where
  "embedCorruptExtract sh r cover msg corruptionRate =
     (case embedMessage sh cover msg of
        Inl e \<Rightarrow> Inl e
      | Inr emb \<Rightarrow>
          (case fst (applyBitCorruption sh r (stegoImage emb) corruptionRate) of
             Inl e \<Rightarrow> Inl e
           | Inr corrupted \<Rightarrow> extractMessage sh corrupted True))"

text \<open>A raw buffer whose least significant bits spell a given bit string.\<close>

definition bytesOfBits :: "jsstring \<Rightarrow> byte list" where
  "bytesOfBits bits = map (\<lambda>b. if b = 49 then 1 else 0) bits"

section \<open>The model's dry run (models/stego_model.js)\<close>

record capacity_info =
  maxBits :: nat
  maxChars :: int

definition calculateCapacity :: "'img sharp \<Rightarrow> 'img \<Rightarrow> error + capacity_info" where
  "calculateCapacity sh imageBuffer =
     (case getMetadata sh imageBuffer of
        Inl e \<Rightarrow> Inl e
      | Inr meta \<Rightarrow>
          (case rawPixels sh imageBuffer of
             Inl e \<Rightarrow> Inl e
           | Inr (data, info) \<Rightarrow>
               Inr \<lparr> maxBits = length data, maxChars = (int (length data) - 128) div 8 \<rparr>))"

record dryrun_metrics =
  psnr :: real
  ssim :: real
  mse :: real
  dm_messageVerified :: "bool option"

record 'img stego_result =
  success :: bool
  sr_stegoImage :: "'img option"
  originalMessage :: "jsstring option"
  sr_extractedMessage :: "jsstring option"
  sr_metrics :: dryrun_metrics

text \<open>
  \<open>StegoModel.dryRun\<close>: embed the custom message (or, when it is absent or empty, the
  demo message built from the clock, a parameter here), extract it back in strict mode,
  and fall back to mock metrics when any of that throws. Both paths draw three random
  numbers for the (mock) image metrics.
\<close>

definition dryRun ::
  "'img sharp \<Rightarrow> jsstring \<Rightarrow> rng \<Rightarrow> 'img image \<Rightarrow> jsstring option \<Rightarrow> 'img stego_result \<times> rng" where
  "dryRun sh demo r img customMessage =
     (let buf = buffer img;
          demoMessage = (case customMessage of None \<Rightarrow> demo
                         | Some m \<Rightarrow> if m \<noteq> [] then m else demo);
          attempt =
            (case calculateCapacity sh buf of
               Inl e \<Rightarrow> Inl e
             | Inr cap \<Rightarrow>
                 (case embedMessage sh buf demoMessage of
                    Inl e \<Rightarrow> Inl e
                  | Inr emb \<Rightarrow>
                      (case extractMessage sh (stegoImage emb) False of
                         Inl e \<Rightarrow> Inl e
                       | Inr ext \<Rightarrow> Inr (stegoImage emb, message ext))));
          r' = (\<lambda>n. r (n + 3))
      in case attempt of
           Inr (stego, extracted) \<Rightarrow>
             (\<lparr> success = True, sr_stegoImage = Some stego,
                originalMessage = Some demoMessage, sr_extractedMessage = Some extracted,
                sr_metrics = \<lparr> psnr = 50 + r 0 * 5, ssim = 0.98 + r 1 * 0.019, mse = r 2 * 5,
                               dm_messageVerified = Some (extracted = demoMessage) \<rparr> \<rparr>, r')
         | Inl e \<Rightarrow>
             (\<lparr> success = False, sr_stegoImage = None,
                originalMessage = None, sr_extractedMessage = None,
                sr_metrics = \<lparr> psnr = 35 + r 0 * 10, ssim = 0.90 + r 1 * 0.09, mse = r 2 * 100,
                               dm_messageVerified = None \<rparr> \<rparr>, r'))"

section \<open>The robustness runner (experiments/runner.js)\<close>

definition js :: "string \<Rightarrow> jsstring" where
  "js s = map of_char s"

record step =
  step_name :: "string option"
  step_params :: transform
  appliedToStego :: bool
  extractionSuccess :: bool
  partialRecovery :: bool
  step_recoveryScore :: real
  step_extractedMessage :: jsstring
  messageIntact :: bool
  step_originalMessage :: "jsstring option"
  step_error :: "error option"

record sample =
  sample_id :: nat
  sample_name :: string
  transforms :: "step list"
  hiddenMessage :: "jsstring option"
  extractedMessage :: "jsstring option"
  messageVerified :: bool
  originalMetrics :: dryrun_metrics
  robustnessScore :: real
  finalMessageVerified :: bool

record config =
  cfg_message :: "jsstring option"
  cfg_transforms :: "transform list"

text \<open>
  The body of the \<open>try\<close>/\<open>catch\<close> of one chain step: tolerant extraction from the
  transformed buffer, and the entry pushed to \<open>sample.transforms\<close> for its outcome
  (the \<open>try\<close> branch for a result, the \<open>catch\<close> branch for an exception).
\<close>

definition recordStep :: "jsstring option \<Rightarrow> transform \<Rightarrow> error + extraction \<Rightarrow> step" where
  "recordStep hidden tr outcome =
     (case outcome of
        Inr extractionResult \<Rightarrow>
          let extractedMsg = message extractionResult;
              survived = (Some extractedMsg = hidden);
              partial = (length extractedMsg > 0 \<and> Some extractedMsg \<noteq> hidden)
          in \<lparr> step_name = t_name tr, step_params = tr, appliedToStego = True,
               extractionSuccess = survived, partialRecovery = partial,
               step_recoveryScore = recoveryScore extractionResult,
               step_extractedMessage = (if extractedMsg \<noteq> [] then extractedMsg
                                        else js ''(no message recovered)''),
               messageIntact = survived, step_originalMessage = hidden,
               step_error = None \<rparr>
      | Inl err \<Rightarrow>
          \<lparr> step_name = t_name tr, step_params = tr, appliedToStego = True,
            extractionSuccess = False, partialRecovery = False,
            step_recoveryScore = 0,
            step_extractedMessage = js ''(extraction error)'',
            messageIntact = False, step_originalMessage = hidden,
            step_error = Some err \<rparr>)"

definition extractionStep :: "'img sharp \<Rightarrow> jsstring option \<Rightarrow> transform \<Rightarrow> 'img \<Rightarrow> step" where
  "extractionStep sh hidden tr transformedBuffer =
     recordStep hidden tr (extractMessage sh transformedBuffer True)"

text \<open>
  The loop over \<open>config.transforms\<close>: \<open>applyTransform\<close> is called outside the step's
  \<open>try\<close>, so its failure leaves the loop as an exception.
\<close>

fun transformLoop ::
  "'img sharp \<Rightarrow> jsstring option \<Rightarrow> transform list \<Rightarrow> rng \<Rightarrow> 'img image \<Rightarrow> step list
    \<Rightarrow> (error + step list) \<times> rng" where
  "transformLoop sh hidden [] r currentStegoImage acc = (Inr acc, r)"
| "transformLoop sh hidden (tr # trs) r currentStegoImage acc =
     (case applyTransform sh r currentStegoImage tr of
        (Inl e, r') \<Rightarrow> (Inl e, r')
      | (Inr transformedImage, r') \<Rightarrow>
          transformLoop sh hidden trs r' transformedImage
            (acc @ [extractionStep sh hidden tr (buffer transformedImage)]))"

text \<open>Step 3 of a sample: \<open>Perfect = 1.0, Partial = recoveryScore, Failed = 0\<close>.\<close>

definition totalRecoveryScore :: "step list \<Rightarrow> real" where
  "totalRecoveryScore steps =
     foldl (\<lambda>total t. if extractionSuccess t then total + 1.0
                       else if partialRecovery t \<and> step_recoveryScore t > 0
                       then total + step_recoveryScore t
                       else total) 0 steps"

definition processSample ::
  "'img sharp \<Rightarrow> jsstring \<Rightarrow> config \<Rightarrow> rng \<Rightarrow> nat \<Rightarrow> 'img image \<Rightarrow> (error + sample) \<times> rng" where
  "processSample sh demo cfg r i img =
     (let (stegoResult, r1) = dryRun sh demo r img (cfg_message cfg);
          embedded = (case originalMessage stegoResult of None \<Rightarrow> False | Some m \<Rightarrow> m \<noteq> []);
          hidden = (if embedded then originalMessage stegoResult else None);
          currentStegoImage = (case sr_stegoImage stegoResult of
                                 Some b \<Rightarrow> img\<lparr> buffer := b \<rparr> | None \<Rightarrow> img)
      in case transformLoop sh hidden (cfg_transforms cfg) r1 currentStegoImage [] of
           (Inl e, r2) \<Rightarrow> (Inl e, r2)
         | (Inr steps, r2) \<Rightarrow>
             (Inr \<lparr> sample_id = i, sample_name = im_name img, transforms = steps,
                    hiddenMessage = hidden,
                    extractedMessage =
                      (if steps \<noteq> [] then Some (step_extractedMessage (last steps))
                       else if embedded then sr_extractedMessage stegoResult else None),
                    messageVerified =
                      (if steps \<noteq> [] then extractionSuccess (last steps)
                       else if embedded
                       then (case dm_messageVerified (sr_metrics stegoResult) of
                               Some v \<Rightarrow> v | None \<Rightarrow> False)
                       else False),
                    originalMetrics = sr_metrics stegoResult,
                    robustnessScore =
                      (if length (cfg_transforms cfg) > 0
                       then totalRecoveryScore steps / real (length (cfg_transforms cfg))
                       else 1.0),
                    finalMessageVerified =
                      (if steps \<noteq> [] then extractionSuccess (last steps) else True) \<rparr>, r2))"

text \<open>
  The loop over the images of the data set, and \<open>runDryRun\<close> around it: an exception
  from a sample reaches the handler of the whole run, which marks the results as failed,
  saves them and throws again. The images are the loaded data set; writing files, the
  log and the aggregate metrics of the finished run are left out, and are taken not to
  fail.
\<close>

fun runImages ::
  "'img sharp \<Rightarrow> jsstring \<Rightarrow> config \<Rightarrow> rng \<Rightarrow> nat \<Rightarrow> 'img image list \<Rightarrow> sample list
    \<Rightarrow> (error \<times> sample list + sample list) \<times> rng" where
  "runImages sh demo cfg r i [] acc = (Inr acc, r)"
| "runImages sh demo cfg r i (img # rest) acc =
     (case processSample sh demo cfg r i img of
        (Inl e, r') \<Rightarrow> (Inl (e, acc), r')
      | (Inr s, r') \<Rightarrow> runImages sh demo cfg r' (Suc i) rest (acc @ [s]))"

record results =
  status :: string
  samples :: "sample list"
  run_error :: "error option"

datatype run_outcome = Returned results | Threw error results

definition runDryRun ::
  "'img sharp \<Rightarrow> jsstring \<Rightarrow> config \<Rightarrow> rng \<Rightarrow> 'img image list \<Rightarrow> run_outcome" where
  "runDryRun sh demo cfg r images =
     (case fst (runImages sh demo cfg r 0 images []) of
        Inr done \<Rightarrow> Returned \<lparr> status = ''completed'', samples = done, run_error = None \<rparr>
      | Inl (e, done) \<Rightarrow> Threw e \<lparr> status = ''failed'', samples = done, run_error = Some e \<rparr>)"

definition outcomeResults :: "run_outcome \<Rightarrow> results" where
  "outcomeResults out = (case out of Returned res \<Rightarrow> res | Threw e res \<Rightarrow> res)"

text \<open>
  The contribution of one step to the robustness score as the specification words it,
  from the outcome of the step's extraction: 1 when the extracted text equals the hidden
  message, the recovery score when the text is non-empty and differs, 0 when extraction
  failed or returned the empty text.
\<close>

definition specContribution :: "jsstring option \<Rightarrow> error + extraction \<Rightarrow> real" where
  "specContribution hidden outcome =
     (case outcome of
        Inl err \<Rightarrow> 0
      | Inr x \<Rightarrow> if Some (message x) = hidden then 1
                 else if message x \<noteq> [] then recoveryScore x
                 else 0)"

text \<open>
  Concrete inputs: the configuration object \<open>{name: 'jpeg', quality: q}\<close>, and a cover
  image of \<open>w\<close> by \<open>h\<close> black RGBA pixels for the library \<open>rawSharp\<close>.
\<close>

definition jpegSpec :: "real \<Rightarrow> transform" where
  "jpegSpec q = \<lparr> t_name = Some ''jpeg'', t_type = None, t_quality = Some q, t_sigma = None,
                  t_scale = None, t_width = None, t_height = None, t_rate = None,
                  t_params = None \<rparr>"

definition solidCover :: "nat \<Rightarrow> nat \<Rightarrow> (byte list \<times> rawinfo) image" where
  "solidCover w h = \<lparr> im_name = ''cover.png'', buffer = (replicate (w * h * 4) 0, rgba w h) \<rparr>"

section \<open>Image metrics (experiments/metrics.js)\<close>

text \<open>
  A metric is a JavaScript number that can be \<open>NaN\<close> or \<open>Infinity\<close>; finite values are
  real numbers.
\<close>

datatype jsnumber = NaN | PosInfinity | Num real

definition px :: "byte list \<Rightarrow> nat \<Rightarrow> real" where
  "px data i = real (unat (data ! i))"

text \<open>
  Both metrics read \<open>dataB[i]\<close> for every index of \<open>dataA\<close>; where \<open>dataB\<close> is shorter
  the operand is \<open>undefined\<close> and the accumulated value is \<open>NaN\<close>, as is \<open>0 / 0\<close> on an
  empty buffer.
\<close>

definition matchDimensions :: "'img sharp \<Rightarrow> 'img \<Rightarrow> 'img \<Rightarrow> error + 'img" where
  "matchDimensions sh bufA bufB =
     (case getMetadata sh bufA of
        Inl e \<Rightarrow> Inl e
      | Inr metaA \<Rightarrow>
          (case getMetadata sh bufB of
             Inl e \<Rightarrow> Inl e
           | Inr metaB \<Rightarrow>
               if width metaA \<noteq> width metaB \<or> height metaA \<noteq> height metaB
               then resizeOp sh bufB (Some (real (width metaA))) (Some (real (height metaA)))
               else Inr bufB))"

definition meanSquaredError :: "byte list \<Rightarrow> byte list \<Rightarrow> real option" where
  "meanSquaredError dataA dataB =
     (let numPixels = length dataA
      in if numPixels = 0 \<or> length dataB < numPixels then None
         else Some (sum_list (map (\<lambda>i. (px dataA i - px dataB i) * (px dataA i - px dataB i))
                                  [0..<numPixels]) / real numPixels))"

definition computePSNR :: "'img sharp \<Rightarrow> 'img \<Rightarrow> 'img \<Rightarrow> error + jsnumber" where
  "computePSNR sh bufA bufB =
     (case matchDimensions sh bufA bufB of
        Inl e \<Rightarrow> Inl e
      | Inr processedBufB \<Rightarrow>
          (case rawPixels sh bufA of
             Inl e \<Rightarrow> Inl e
           | Inr (dataA, infoA) \<Rightarrow>
               (case rawPixels sh processedBufB of
                  Inl e \<Rightarrow> Inl e
                | Inr (dataB, infoB) \<Rightarrow>
                    (case meanSquaredError dataA dataB of
                       None \<Rightarrow> Inr NaN
                     | Some m \<Rightarrow>
                         if m = 0 then Inr PosInfinity
                         else Inr (Num (10 * log 10 ((255 * 255) / m)))))))"

definition ssimOfRaw :: "byte list \<Rightarrow> byte list \<Rightarrow> jsnumber" where
  "ssimOfRaw dataA dataB =
     (let n = length dataA
      in if n = 0 \<or> length dataB < n then NaN
         else
           let C1 = (0.01 * 255) ^ 2;
               C2 = (0.03 * 255) ^ 2;
               meanA = sum_list (map (px dataA) [0..<n]) / real n;
               meanB = sum_list (map (px dataB) [0..<n]) / real n;
               varA = sum_list (map (\<lambda>i. (px dataA i - meanA) * (px dataA i - meanA)) [0..<n]) / real n;
               varB = sum_list (map (\<lambda>i. (px dataB i - meanB) * (px dataB i - meanB)) [0..<n]) / real n;
               covarAB = sum_list (map (\<lambda>i. (px dataA i - meanA) * (px dataB i - meanB)) [0..<n]) / real n;
               numerator = (2 * meanA * meanB + C1) * (2 * covarAB + C2);
               denominator = (meanA * meanA + meanB * meanB + C1) * (varA + varB + C2)
           in Num (max 0 (min 1 (numerator / denominator))))"

definition computeSSIM :: "'img sharp \<Rightarrow> 'img \<Rightarrow> 'img \<Rightarrow> error + jsnumber" where
  "computeSSIM sh bufA bufB =
     (case matchDimensions sh bufA bufB of
        Inl e \<Rightarrow> Inl e
      | Inr processedBufB \<Rightarrow>
          (case rawPixels sh bufA of
             Inl e \<Rightarrow> Inl e
           | Inr (dataA, infoA) \<Rightarrow>
               (case rawPixels sh processedBufB of
                  Inl e \<Rightarrow> Inl e
                | Inr (dataB, infoB) \<Rightarrow> Inr (ssimOfRaw dataA dataB))))"

section \<open>Properties of the codec\<close>
lemma natDigits_value: "2 \<le> r \<Longrightarrow> digitsValue r (natDigits r n) = n"
proof (induction r n rule: natDigits.induct)
  case (1 r n)
  show ?case
  proof (cases "n < r")
    case True
    then show ?thesis by (simp add: natDigits.simps digitsValue_def)
  next
    case False
    with 1 have IH: "digitsValue r (natDigits r (n div r)) = n div r" by simp
    from False 1(2) have "natDigits r n = natDigits r (n div r) @ [n mod r]"
      by (simp add: natDigits.simps)
    then show ?thesis using IH by (simp add: digitsValue_def)
  qed
qed

lemma natDigits_lt: "2 \<le> r \<Longrightarrow> d \<in> set (natDigits r n) \<Longrightarrow> d < r"
proof (induction r n rule: natDigits.induct)
  case (1 r n)
  show ?case
  proof (cases "n < r")
    case True
    with 1(3) show ?thesis by (simp add: natDigits.simps)
  next
    case False
    from False 1(2) have eq: "natDigits r n = natDigits r (n div r) @ [n mod r]"
      by (simp add: natDigits.simps)
    with 1 False show ?thesis by auto
  qed
qed

lemma natDigits_length: "2 \<le> r \<Longrightarrow> 0 < k \<Longrightarrow> n < r ^ k \<Longrightarrow> length (natDigits r n) \<le> k"
proof (induction r n arbitrary: k rule: natDigits.induct)
  case (1 r n)
  show ?case
  proof (cases "n < r")
    case True
    with 1(3) show ?thesis by (simp add: natDigits.simps)
  next
    case False
    from False 1(2) have eq: "natDigits r n = natDigits r (n div r) @ [n mod r]"
      by (simp add: natDigits.simps)
    from False 1(4) 1(2) have k1: "1 < k"
      by (metis One_nat_def Suc_lessI 1(3) power_one_right)
    then obtain k' where k': "k = Suc k'" "0 < k'" by (cases k) auto
    from 1(4) k' have "n div r < r ^ k'"
      by (simp add: less_mult_imp_div_less mult.commute)
    with 1(1)[of k'] False 1(2) k' have "length (natDigits r (n div r)) \<le> k'" by simp
    with eq k' show ?thesis by simp
  qed
qed

lemma natDigits_nonempty: "natDigits r n \<noteq> []"
  by (subst natDigits.simps) simp

lemma digitValue_digitChar: "d < 10 \<Longrightarrow> digitValue (digitChar d) = Some d"
  by (simp add: digitValue_def digitChar_def)

lemma takeWhile_digitChars:
  assumes "\<forall>d\<in>set ds. d < R" "R \<le> 10"
  shows "takeWhile (isRadixDigit R) (map digitChar ds) = map digitChar ds"
  using assms by (induction ds) (auto simp: isRadixDigit_def digitValue_digitChar)

lemma digitOf_digitChars:
  assumes "\<forall>d\<in>set ds. d < 10"
  shows "map digitOf (map digitChar ds) = ds"
  using assms by (induction ds) (auto simp: digitOf_def digitValue_digitChar)

lemma digitChar_not_ws: "d < 10 \<Longrightarrow> \<not> isStrWhiteSpaceChar (digitChar d)"
  by (simp add: isStrWhiteSpaceChar_def digitChar_def)

lemma parseInt_digitChars:
  assumes ne: "ds \<noteq> []" and lt: "\<forall>d\<in>set ds. d < R" and R: "radix = Some R \<and> 2 \<le> R \<and> R \<le> 10 \<or> radix = None \<and> R = 10"
  shows "parseInt (map digitChar ds) radix = Some (int (digitsValue R ds))"
proof -
  from ne obtain d ds' where ds: "ds = d # ds'" by (cases ds) auto
  from lt R have lt10: "\<forall>d\<in>set ds. d < 10" by auto
  with ds have d10: "d < 10" by simp
  have S: "dropWhile isStrWhiteSpaceChar (map digitChar ds) = map digitChar ds"
    using ds digitChar_not_ws[OF d10] by simp
  have hd: "hd (map digitChar ds) \<noteq> 45" "hd (map digitChar ds) \<noteq> 43"
    using ds d10 by (simp_all add: digitChar_def)
  have nohex: "take 2 (map digitChar ds) \<noteq> [48, 120]" "take 2 (map digitChar ds) \<noteq> [48, 88]"
  proof -
    show "take 2 (map digitChar ds) \<noteq> [48, 120]"
    proof (cases ds')
      case Nil with ds show ?thesis by simp
    next
      case (Cons e es)
      with lt10 ds have "e < 10" by simp
      then have "digitChar e \<noteq> 120" by (simp add: digitChar_def)
      with Cons ds show ?thesis by simp
    qed
    show "take 2 (map digitChar ds) \<noteq> [48, 88]"
    proof (cases ds')
      case Nil with ds show ?thesis by simp
    next
      case (Cons e es)
      with lt10 ds have "e < 10" by simp
      then have "digitChar e \<noteq> 88" by (simp add: digitChar_def)
      with Cons ds show ?thesis by simp
    qed
  qed
  have R10: "R \<le> 10" using R by auto
  have Z: "takeWhile (isRadixDigit R) (map digitChar ds) = map digitChar ds"
    by (rule takeWhile_digitChars[OF lt R10])
  have Zne: "map digitChar ds \<noteq> []" using ne by simp
  have dv: "map digitOf (map digitChar ds) = ds" by (rule digitOf_digitChars[OF lt10])
  from R show ?thesis
  proof
    assume a: "radix = Some R \<and> 2 \<le> R \<and> R \<le> 10"
    then have R16: "R \<noteq> 16" "R \<noteq> 0" "\<not> R < 2" "\<not> 36 < R" by auto
    show ?thesis
      using a ne by (simp add: parseInt_def Let_def S hd nohex Z Zne dv R16 del: map_map)
  next
    assume b: "radix = None \<and> R = 10"
    with Z have Z10: "takeWhile (isRadixDigit 10) (map digitChar ds) = map digitChar ds" by simp
    show ?thesis
      using b ne by (simp add: parseInt_def Let_def S hd nohex Z10 Zne dv del: map_map)
  qed
qed

lemma digitsValue_zeros: "digitsValue R (replicate k 0 @ ds) = digitsValue R ds"
  by (induction k) (simp_all add: digitsValue_def)

lemma padStart_toStringRadix:
  "r \<le> 10 \<Longrightarrow> padStart k 48 (toStringRadix r n) = map digitChar (replicate (k - length (natDigits r n)) 0 @ natDigits r n)"
  by (simp add: padStart_def toStringRadix_def digitChar_def)

lemma parseInt_padStart:
  assumes R: "radix = Some r \<and> 2 \<le> r \<and> r \<le> 10 \<or> radix = None \<and> r = 10"
  shows "parseInt (padStart k 48 (toStringRadix r n)) radix = Some (int n)"
proof -
  have r2: "2 \<le> r" "r \<le> 10" using R by auto
  let ?ds = "replicate (k - length (natDigits r n)) 0 @ natDigits r n"
  have ne: "?ds \<noteq> []" by (simp add: natDigits_nonempty)
  have lt: "\<forall>d\<in>set ?ds. d < r" using natDigits_lt[OF r2(1)] r2 by auto
  have "parseInt (map digitChar ?ds) radix = Some (int (digitsValue r ?ds))"
    by (rule parseInt_digitChars[OF ne lt R])
  then show ?thesis
    by (simp add: padStart_toStringRadix[OF r2(2)] digitsValue_zeros natDigits_value[OF r2(1)])
qed

lemma byteBlock_length: "c < 256 \<Longrightarrow> length (padStart 8 48 (toStringRadix 2 c)) = 8"
proof -
  assume "c < 256"
  then have "length (natDigits 2 c) \<le> 8"
    by (intro natDigits_length) simp_all
  then show ?thesis by (simp add: padStart_def toStringRadix_def)
qed

lemma byteBlock_bits: "b \<in> set (padStart k 48 (toStringRadix 2 c)) \<Longrightarrow> b = 48 \<or> b = 49"
proof -
  assume "b \<in> set (padStart k 48 (toStringRadix 2 c))"
  then have "b = 48 \<or> (\<exists>d \<in> set (natDigits 2 c). b = digitChar d)"
    by (auto simp: padStart_def toStringRadix_def)
  moreover have "\<And>d. d \<in> set (natDigits 2 c) \<Longrightarrow> d < 2" by (rule natDigits_lt) simp_all
  ultimately show ?thesis by (force simp: digitChar_def less_2_cases_iff)
qed

lemma matchChunks_block:
  assumes len: "length blk = 8" and nolt: "\<forall>c\<in>set blk. \<not> isLineTerminator c"
  shows "matchChunks (blk @ rest) = blk # matchChunks rest"
proof -
  have ne: "blk @ rest \<noteq> []" using len by auto
  have tk: "takeWhile (\<lambda>c. \<not> isLineTerminator c) (take 8 (blk @ rest)) = blk"
    using len nolt by (simp add: takeWhile_eq_all_conv)
  have blkne: "blk \<noteq> []" using len by auto
  have dr: "drop (length blk) (blk @ rest) = rest" by simp
  have "matchChunks (blk @ rest) =
     (let m = takeWhile (\<lambda>c. \<not> isLineTerminator c) (take 8 (blk @ rest))
      in if m = [] then matchChunks (tl (blk @ rest)) else m # matchChunks (drop (length m) (blk @ rest)))"
    by (subst matchChunks.simps) (simp only: ne if_False)
  also have "\<dots> = blk # matchChunks rest"
    by (simp only: tk Let_def blkne if_False dr)
  finally show ?thesis .
qed

lemma matchChunks_Nil: "matchChunks [] = []"
  by (subst matchChunks.simps) simp

lemma binaryToString_stringToBinary:
  "\<forall>c\<in>set s. c < 256 \<Longrightarrow> binaryToString (stringToBinary s) = s"
proof (induction s)
  case Nil
  show ?case by (simp add: binaryToString_def stringToBinary_def matchChunks_Nil)
next
  case (Cons c s)
  let ?blk = "padStart 8 48 (toStringRadix 2 c)"
  from Cons.prems have c: "c < 256" by simp
  have len: "length ?blk = 8" by (rule byteBlock_length[OF c])
  have nolt: "\<forall>b\<in>set ?blk. \<not> isLineTerminator b"
  proof
    fix b assume "b \<in> set ?blk"
    then have "b = 48 \<or> b = 49" by (rule byteBlock_bits)
    then show "\<not> isLineTerminator b" by (auto simp: isLineTerminator_def)
  qed
  have split: "stringToBinary (c # s) = ?blk @ stringToBinary s"
    by (simp add: stringToBinary_def)
  have pi: "parseInt ?blk (Some 2) = Some (int c)"
    by (rule parseInt_padStart) simp
  have "binaryToString (stringToBinary (c # s)) = fromCharCode (parseInt ?blk (Some 2)) # binaryToString (stringToBinary s)"
    by (simp add: split binaryToString_def matchChunks_block[OF len nolt])
  also have "\<dots> = c # s"
    using Cons c by (simp add: pi fromCharCode_def)
  finally show ?case .
qed

text \<open>
  Claim C2. For every string all of whose characters have code points in 0--255,
  decoding the binary encoding of the string gives the string back:
  \<open>binaryToString(stringToBinary(s)) = s\<close>.
\<close>

theorem C2_codec_roundtrip:
  assumes "\<forall>c\<in>set s. c \<le> 255"
  shows "binaryToString (stringToBinary s) = s"
proof -
  from assms have "\<forall>c\<in>set s. c < 256" by auto
  then show ?thesis by (rule binaryToString_stringToBinary)
qed

theorem C2_codec_roundtrip_witness:
  "list_all (\<lambda>c. c \<le> 255) [72, 105, 255, 0 :: nat] \<and>
   binaryToString (stringToBinary [72, 105, 255, 0]) = [72, 105, 255, 0]"
  using C2_codec_roundtrip [of "[72, 105, 255, 0]"] by simp

section \<open>Embedding and strict extraction\<close>

lemma bitOfChar_48: "bitOfChar 48 = 0"
  by (simp add: bitOfChar_def parseInt_def isStrWhiteSpaceChar_def isRadixDigit_def digitValue_def digitsValue_def digitOf_def Let_def)

lemma bitOfChar_49: "bitOfChar 49 = 1"
  by (simp add: bitOfChar_def parseInt_def isStrWhiteSpaceChar_def isRadixDigit_def digitValue_def digitsValue_def digitOf_def Let_def)

lemma lsb_set0: "((x::byte) AND 254) AND 1 = 0"
proof -
  have "(x AND 254) AND 1 = x AND (254 AND 1)" by (simp only: and.assoc)
  also have "(254 AND 1 :: byte) = 0" by simp
  finally show ?thesis by simp
qed

lemma lsb_set1: "(((x::byte) AND 254) OR 1) AND 1 = 1"
proof -
  have "((x AND 254) OR 1) AND 1 = ((x AND 254) AND 1) OR (1 AND 1)"
    by (simp only: bit.conj_disj_distrib2)
  then show ?thesis by (simp only: lsb_set0) simp
qed

lemma embedLoop_length: "length (embedLoop bits i md) = length md"
  by (induction bits arbitrary: i md) simp_all

lemma embedLoop_nth:
  "j < length md \<Longrightarrow>
   embedLoop bits i md ! j =
     (if i \<le> j \<and> j < i + length bits then (md ! j AND 0xFE) OR bitOfChar (bits ! (j - i)) else md ! j)"
proof (induction bits arbitrary: i md)
  case Nil
  then show ?case by auto
next
  case (Cons c cs)
  let ?md' = "md[i := (md ! i AND 0xFE) OR bitOfChar c]"
  have len: "j < length ?md'" using Cons.prems by simp
  show ?case
  proof (cases "j = i")
    case True
    then show ?thesis using Cons.IH[OF len, of "Suc i"] Cons.prems by simp
  next
    case False
    then show ?thesis using Cons.IH[OF len, of "Suc i"] Cons.prems
      by (auto simp: nth_Cons' Suc_diff_le)
  qed
qed

lemma lsbChar_embedLoop:
  assumes "j < length bits" "length bits \<le> length md" "\<forall>b\<in>set bits. b = 48 \<or> b = 49"
  shows "lsbChar (embedLoop bits 0 md) j = bits ! j"
proof -
  have jl: "j < length md" using assms by simp
  have b: "bits ! j = 48 \<or> bits ! j = 49" using assms by simp
  have "embedLoop bits 0 md ! j = (md ! j AND 0xFE) OR bitOfChar (bits ! j)"
    using embedLoop_nth[OF jl, of bits 0] assms by simp
  then show ?thesis
    using b jl by (auto simp: lsbChar_def embedLoop_length bitOfChar_48 bitOfChar_49 lsb_set0 lsb_set1)
qed

lemma embedLoop_untouched:
  assumes "length bits \<le> j" "j < length md"
  shows "embedLoop bits 0 md ! j = md ! j"
  using embedLoop_nth[OF assms(2), of bits 0] assms by simp

lemma lsbChars_embedLoop:
  assumes "a + k \<le> length bits" "length bits \<le> length md" "\<forall>b\<in>set bits. b = 48 \<or> b = 49"
  shows "map (lsbChar (embedLoop bits 0 md)) [a..<a + k] = take k (drop a bits)"
proof (rule nth_equalityI)
  show "length (map (lsbChar (embedLoop bits 0 md)) [a..<a + k]) = length (take k (drop a bits))"
    using assms by simp
next
  fix i assume "i < length (map (lsbChar (embedLoop bits 0 md)) [a..<a + k])"
  then have i: "i < k" by simp
  then have "a + i < length bits" using assms by simp
  then have "lsbChar (embedLoop bits 0 md) (a + i) = bits ! (a + i)"
    using assms by (intro lsbChar_embedLoop) simp_all
  then show "map (lsbChar (embedLoop bits 0 md)) [a..<a + k] ! i = take k (drop a bits) ! i"
    using i assms by simp
qed

lemma stringToBinary_append: "stringToBinary (a @ b) = stringToBinary a @ stringToBinary b"
  by (simp add: stringToBinary_def)

lemma stringToBinary_length: "\<forall>c\<in>set s. c < 256 \<Longrightarrow> length (stringToBinary s) = 8 * length s"
proof (induction s)
  case Nil show ?case by (simp add: stringToBinary_def)
next
  case (Cons c s)
  then have "length (padStart 8 48 (toStringRadix 2 c)) = 8" by (intro byteBlock_length) simp
  moreover have "stringToBinary (c # s) = padStart 8 48 (toStringRadix 2 c) @ stringToBinary s"
    by (simp add: stringToBinary_def)
  ultimately show ?case using Cons by simp
qed

lemma stringToBinary_bits: "b \<in> set (stringToBinary s) \<Longrightarrow> b = 48 \<or> b = 49"
  by (auto simp: stringToBinary_def dest: byteBlock_bits)


lemma lengthPrefix_length: "n < 10 ^ 16 \<Longrightarrow> length (lengthPrefix n) = 16"
proof -
  assume "n < 10 ^ 16"
  then have "length (natDigits 10 n) \<le> 16" by (intro natDigits_length) simp_all
  then show ?thesis by (simp add: lengthPrefix_def padStart_def toStringRadix_def)
qed

lemma lengthPrefix_chars: "c \<in> set (lengthPrefix n) \<Longrightarrow> c < 256"
proof -
  assume "c \<in> set (lengthPrefix n)"
  then have "c = 48 \<or> (\<exists>d\<in>set (natDigits 10 n). c = digitChar d)"
    by (auto simp: lengthPrefix_def padStart_def toStringRadix_def)
  moreover have "\<And>d. d \<in> set (natDigits 10 n) \<Longrightarrow> d < 10" by (rule natDigits_lt) simp_all
  ultimately show ?thesis by (force simp: digitChar_def)
qed

lemma lengthPrefix_parse: "parseInt (lengthPrefix n) None = Some (int n)"
  unfolding lengthPrefix_def by (rule parseInt_padStart) simp



lemma validLength_Some: "validLength (Some (int n)) \<longleftrightarrow> 0 < n \<and> n \<le> 10000"
  by (auto simp: validLength_def)

lemma extractMessage_decoded:
  assumes raw: "rawAlpha sh img = Inr (d, info)"
    and hdr: "map (lsbChar d) [0..<128] = stringToBinary (lengthPrefix n)"
    and n: "0 < n" "n \<le> 10000"
    and len: "length m = n"
    and body: "map (lsbChar d) [128..<128 + n * 8] = stringToBinary m"
    and chars: "\<forall>c\<in>set m. c < 256"
  shows "extractMessage sh img tol =
           (let lc = (tol \<and> real (printableCount m) / real (length m) < 0.7);
                rec = attemptMessageRecovery (stringToBinary m);
                msg = (if lc \<and> length rec > 0 then rec else m)
            in Inr \<lparr> message = msg,
                     recoveryScore = (if tol then toleranceScore msg else 1),
                     bitsRecovered = n * 8,
                     wasCorrupted = lc,
                     x_metadata = \<lparr> xm_messageLength = length msg, bitsExtracted = n * 8 + 128 \<rparr> \<rparr>)"
proof -
  have hchars: "\<forall>c\<in>set (lengthPrefix n). c < 256" using lengthPrefix_chars by blast
  have lstr: "binaryToString (map (lsbChar d) [0..<128]) = lengthPrefix n"
    by (simp only: hdr binaryToString_stringToBinary[OF hchars])
  have parsed: "parseInt (binaryToString (map (lsbChar d) [0..<128])) None = Some (int n)"
    by (simp only: lstr lengthPrefix_parse)
  have valid: "validLength (Some (int n))" using n by (simp add: validLength_Some)
  have dec: "binaryToString (map (lsbChar d) [128..<128 + n * 8]) = m"
    by (simp only: body binaryToString_stringToBinary[OF chars])
  have mpos: "length m > 0" using n len by simp
  show ?thesis
    unfolding extractMessage_def
    apply (simp only: raw sum.case prod.case Let_def parsed valid dec body mpos option.case nat_int
        binaryToString_stringToBinary[OF chars] simp_thms if_True if_False len)
    using n apply simp
    done
qed

lemma extractMessage_zero_length:
  assumes raw: "rawAlpha sh img = Inr (d, info)"
    and hdr: "map (lsbChar d) [0..<128] = stringToBinary (lengthPrefix 0)"
  shows "extractMessage sh img False = Inl InvalidMessageLength"
proof -
  have hchars: "\<forall>c\<in>set (lengthPrefix 0). c < 256" using lengthPrefix_chars by blast
  have lstr: "binaryToString (map (lsbChar d) [0..<128]) = lengthPrefix 0"
    by (simp only: hdr binaryToString_stringToBinary[OF hchars])
  have parsed: "parseInt (binaryToString (map (lsbChar d) [0..<128])) None = Some (int 0)"
    by (simp only: lstr lengthPrefix_parse)
  have invalid: "\<not> validLength (Some (int 0))" by (simp add: validLength_def)
  show ?thesis
    unfolding extractMessage_def
    by (simp only: raw sum.case prod.case Let_def parsed invalid simp_thms if_True)
qed


lemma payload_length:
  assumes "\<forall>c\<in>set m. c < 256" "length m < 10 ^ 16"
  shows "length (stringToBinary (lengthPrefix (length m) @ m)) = 128 + 8 * length m"
proof -
  have "\<forall>c\<in>set (lengthPrefix (length m)). c < 256" using lengthPrefix_chars by blast
  then have "length (stringToBinary (lengthPrefix (length m))) = 8 * 16"
    using stringToBinary_length lengthPrefix_length[OF assms(2)] by simp
  then show ?thesis
    using stringToBinary_length[OF assms(1)] by (simp add: stringToBinary_append)
qed

lemma embedMessage_result:
  assumes raw: "rawAlpha sh cover = Inr (data, info)"
    and chars: "\<forall>c\<in>set m. c < 256" and len: "length m < 10 ^ 16"
  shows "embedMessage sh cover m =
           (if 128 + 8 * length m > length data
            then Inl (MessageTooLong (length data div 8) (length m))
            else Inr \<lparr> stegoImage = pngOfRaw sh
                         (embedLoop (stringToBinary (lengthPrefix (length m) @ m)) 0 data) info,
                       metadata = \<lparr> em_messageLength = length m,
                                    bitsUsed = 128 + 8 * length m,
                                    capacity = length data \<rparr> \<rparr>)"
  unfolding embedMessage_def
  by (simp only: raw sum.case prod.case Let_def payload_length[OF chars len])

lemma embedded_header_bits:
  assumes chars: "\<forall>c\<in>set m. c < 256" and len: "length m < 10 ^ 16"
    and cap: "128 + 8 * length m \<le> length data"
  shows "map (lsbChar (embedLoop (stringToBinary (lengthPrefix (length m) @ m)) 0 data)) [0..<128]
           = stringToBinary (lengthPrefix (length m))"
proof -
  let ?bits = "stringToBinary (lengthPrefix (length m) @ m)"
  have hl: "length (stringToBinary (lengthPrefix (length m))) = 128"
    using stringToBinary_length[of "lengthPrefix (length m)"] lengthPrefix_chars
      lengthPrefix_length[OF len] by simp
  have bl: "length ?bits = 128 + 8 * length m" by (rule payload_length[OF chars len])
  have "map (lsbChar (embedLoop ?bits 0 data)) [0..<0 + 128] = take 128 (drop 0 ?bits)"
    using bl cap stringToBinary_bits by (intro lsbChars_embedLoop) auto
  then show ?thesis using hl by (simp add: stringToBinary_append)
qed

lemma embedded_body_bits:
  assumes chars: "\<forall>c\<in>set m. c < 256" and len: "length m < 10 ^ 16"
    and cap: "128 + 8 * length m \<le> length data"
  shows "map (lsbChar (embedLoop (stringToBinary (lengthPrefix (length m) @ m)) 0 data))
           [128..<128 + length m * 8] = stringToBinary m"
proof -
  let ?bits = "stringToBinary (lengthPrefix (length m) @ m)"
  have hl: "length (stringToBinary (lengthPrefix (length m))) = 128"
    using stringToBinary_length[of "lengthPrefix (length m)"] lengthPrefix_chars
      lengthPrefix_length[OF len] by simp
  have ml: "length (stringToBinary m) = 8 * length m" by (rule stringToBinary_length[OF chars])
  have bl: "length ?bits = 128 + 8 * length m" by (rule payload_length[OF chars len])
  have "map (lsbChar (embedLoop ?bits 0 data)) [128..<128 + length m * 8]
          = take (length m * 8) (drop 128 ?bits)"
    using bl cap stringToBinary_bits by (intro lsbChars_embedLoop) auto
  then show ?thesis using hl ml by (simp add: stringToBinary_append mult.commute)
qed

lemma embedThenExtract_result:
  assumes raw: "rawAlpha sh cover = Inr (data, info)"
    and lossless: "\<And>d. length d = length data \<Longrightarrow> rawAlpha sh (pngOfRaw sh d info) = Inr (d, info)"
    and chars: "\<forall>c\<in>set m. c < 256"
    and n: "0 < length m" "length m \<le> 10000"
    and cap: "128 + 8 * length m \<le> length data"
  shows "embedThenExtract sh cover m tol =
           (let lc = (tol \<and> real (printableCount m) / real (length m) < 0.7);
                rec = attemptMessageRecovery (stringToBinary m);
                msg = (if lc \<and> length rec > 0 then rec else m)
            in Inr \<lparr> message = msg,
                     recoveryScore = (if tol then toleranceScore msg else 1),
                     bitsRecovered = length m * 8,
                     wasCorrupted = lc,
                     x_metadata = \<lparr> xm_messageLength = length msg,
                                    bitsExtracted = length m * 8 + 128 \<rparr> \<rparr>)"
proof -
  have len: "length m < 10 ^ 16" using n by simp
  let ?d = "embedLoop (stringToBinary (lengthPrefix (length m) @ m)) 0 data"
  have emb: "embedMessage sh cover m =
     Inr \<lparr> stegoImage = pngOfRaw sh ?d info,
           metadata = \<lparr> em_messageLength = length m, bitsUsed = 128 + 8 * length m,
                        capacity = length data \<rparr> \<rparr>"
    using cap by (simp add: embedMessage_result[OF raw chars len])
  have raw': "rawAlpha sh (pngOfRaw sh ?d info) = Inr (?d, info)"
    by (rule lossless) (simp add: embedLoop_length)
  have "extractMessage sh (pngOfRaw sh ?d info) tol = (let lc = (tol \<and> real (printableCount m) / real (length m) < 0.7);
                rec = attemptMessageRecovery (stringToBinary m);
                msg = (if lc \<and> length rec > 0 then rec else m)
            in Inr \<lparr> message = msg,
                     recoveryScore = (if tol then toleranceScore msg else 1),
                     bitsRecovered = length m * 8,
                     wasCorrupted = lc,
                     x_metadata = \<lparr> xm_messageLength = length msg,
                                    bitsExtracted = length m * 8 + 128 \<rparr> \<rparr>)"
    by (rule extractMessage_decoded[OF raw' embedded_header_bits[OF chars len cap] n refl
          embedded_body_bits[OF chars len cap] chars])
  then show ?thesis
    unfolding embedThenExtract_def by (simp only: emb sum.case embed_result.simps)
qed

lemma embedLoopH_embedLoop:
  "a < length h \<Longrightarrow> embedLoopH bits i a h = h[a := embedLoop bits i (h ! a)]"
proof (induction bits arbitrary: i h)
  case Nil
  then show ?case by simp
next
  case (Cons c cs)
  let ?h' = "h[a := (h ! a)[i := ((h ! a) ! i AND 0xFE) OR bitOfChar c]]"
  have "a < length ?h'" using Cons.prems by simp
  then have "embedLoopH cs (Suc i) a ?h' = ?h'[a := embedLoop cs (Suc i) (?h' ! a)]"
    by (rule Cons.IH)
  then show ?case using Cons.prems by simp
qed

lemma embedMessageH_result:
  assumes raw: "rawAlpha sh cover = Inr (data, info)"
  shows "embedMessageH sh h cover m =
           (case embedMessage sh cover m of
              Inl e \<Rightarrow> (Inl e, h @ [data])
            | Inr r \<Rightarrow> (Inr r, h @ [data,
                embedLoop (stringToBinary (lengthPrefix (length m) @ m)) 0 data]))"
proof -
  have "embedLoopH bits 0 (Suc (length h)) (h @ [data, data])
          = h @ [data, embedLoop bits 0 data]" for bits
    by (subst embedLoopH_embedLoop) (simp_all add: nth_append list_update_append)
  then show ?thesis
    unfolding embedMessageH_def embedMessage_def
    by (simp add: raw Let_def bufferFrom_def nth_append)
qed

text \<open>
  Claim C3 (amended). For every cover image and every message composed of code points
  0--255 (of fewer than \<open>10^16\<close> characters, as every JavaScript string is),
  \<open>embedMessage\<close> succeeds when 128 + 8 bits per character is at most the cover's raw
  byte count, equality included, and fails with the ``Message too long'' error when it
  exceeds it; whether it fails or succeeds, the cover's raw buffer and every buffer that
  existed before the call are unchanged.
\<close>

theorem C3_capacity:
  assumes raw: "rawAlpha sh cover = Inr (data, info)"
    and chars: "\<forall>c\<in>set m. c \<le> 255"
    and len: "length m < 10 ^ 16"
  shows "(128 + 8 * length m \<le> length data \<longrightarrow>
            (\<exists>r. embedMessage sh cover m = Inr r \<and> fst (embedMessageH sh h cover m) = Inr r))
       \<and> (128 + 8 * length m > length data \<longrightarrow>
            embedMessage sh cover m = Inl (MessageTooLong (length data div 8) (length m))
            \<and> embedMessageH sh h cover m
                = (Inl (MessageTooLong (length data div 8) (length m)), h @ [data]))
       \<and> take (Suc (length h)) (snd (embedMessageH sh h cover m)) = h @ [data]"
proof -
  from chars have c: "\<forall>c\<in>set m. c < 256" by auto
  note e = embedMessage_result[OF raw c len]
  note eh = embedMessageH_result[OF raw, of h m]
  show ?thesis
  proof (cases "128 + 8 * length m \<le> length data")
    case True
    then show ?thesis by (simp add: e eh)
  next
    case False
    then show ?thesis by (simp add: e eh)
  qed
qed

text \<open>
  Claim C1 (amended). For every cover image and every message of 1 to 10000 characters
  with code points 0--255 whose payload (128 header bits plus 8 bits per character) fits
  the cover's raw byte count, strict extraction from the stego image that \<open>embedMessage\<close>
  produces returns exactly the message, with recovery score 1. The PNG encoding is
  assumed lossless on buffers of the cover's shape.
\<close>

theorem C1_roundtrip:
  assumes raw: "rawAlpha sh cover = Inr (data, info)"
    and lossless: "\<And>d. length d = length data \<Longrightarrow> rawAlpha sh (pngOfRaw sh d info) = Inr (d, info)"
    and chars: "\<forall>c\<in>set m. c \<le> 255"
    and n: "0 < length m" "length m \<le> 10000"
    and cap: "128 + 8 * length m \<le> length data"
  shows "\<exists>x. embedThenExtract sh cover m False = Inr x \<and> message x = m \<and> recoveryScore x = 1"
proof -
  from chars have c: "\<forall>c\<in>set m. c < 256" by auto
  show ?thesis
    by (simp add: embedThenExtract_result[OF raw lossless c n cap] Let_def)
qed

lemma rawSharp_raw: "rawAlpha rawSharp (d, i) = Inr (d, i)"
  by (simp add: rawSharp_def)

lemma rawSharp_png: "pngOfRaw rawSharp d i = (d, i)"
  by (simp add: rawSharp_def)

theorem C1_roundtrip_witness:
  "list_all (\<lambda>c. c \<le> 255) [72, 69, 76, 76, 79 :: nat] \<and>
   128 + 8 * length [72, 69, 76, 76, 79 :: nat] \<le> length (replicate 168 (0 :: byte)) \<and>
   (\<exists>x. embedThenExtract rawSharp (replicate 168 0, rgba 7 6) [72, 69, 76, 76, 79] False = Inr x
        \<and> message x = [72, 69, 76, 76, 79] \<and> recoveryScore x = 1)"
  using C1_roundtrip [of rawSharp "(replicate 168 0, rgba 7 6)" "replicate 168 0" "rgba 7 6"
      "[72, 69, 76, 76, 79]"]
  by (simp add: rawSharp_raw rawSharp_png)

text \<open>
  Claim C1 as stated fails for the empty message: it fits a cover of 128 bytes and is
  embedded, but the extractor rejects the length 0 of its header.
\<close>

theorem C1_empty_message_counterexample:
  "128 + 8 * length ([] :: jsstring) \<le> length (replicate 128 (0 :: byte)) \<and>
   embedThenExtract rawSharp (replicate 128 0, rgba 8 4) [] False = Inl InvalidMessageLength"
proof -
  let ?data = "replicate 128 (0 :: byte)"
  let ?d = "embedLoop (stringToBinary (lengthPrefix (length ([] :: jsstring)) @ [])) 0 ?data"
  have emb: "embedMessage rawSharp (?data, rgba 8 4) [] =
     Inr \<lparr> stegoImage = pngOfRaw rawSharp ?d (rgba 8 4),
           metadata = \<lparr> em_messageLength = 0, bitsUsed = 128, capacity = 128 \<rparr> \<rparr>"
    using embedMessage_result[of rawSharp "(?data, rgba 8 4)" ?data "rgba 8 4" "[]"]
    by (simp add: rawSharp_raw)
  have hdr: "map (lsbChar ?d) [0..<128] = stringToBinary (lengthPrefix 0)"
    using embedded_header_bits[of "[]" ?data] by simp
  have "extractMessage rawSharp (?d, rgba 8 4) False = Inl InvalidMessageLength"
    by (rule extractMessage_zero_length[OF rawSharp_raw hdr])
  then show ?thesis
    unfolding embedThenExtract_def by (simp add: emb rawSharp_png)
qed

theorem C3_capacity_witness:
  "list_all (\<lambda>c. c \<le> 255) [72, 105 :: nat] \<and>
   (\<exists>r. embedMessage rawSharp (replicate 144 0, rgba 6 6) [72, 105] = Inr r) \<and>
   embedMessage rawSharp (replicate 140 0, rgba 7 5) [72, 105] = Inl (MessageTooLong 17 2) \<and>
   snd (embedMessageH rawSharp [] (replicate 140 0, rgba 7 5) [72, 105]) = [replicate 140 0]"
  using C3_capacity [of rawSharp "(replicate 144 0, rgba 6 6)" "replicate 144 0" "rgba 6 6"
      "[72, 105]" "[]"]
    C3_capacity [of rawSharp "(replicate 140 0, rgba 7 5)" "replicate 140 0" "rgba 7 5"
      "[72, 105]" "[]"]
  by (auto simp: rawSharp_raw)

lemma wide_char_bits: "toStringRadix 2 256 = [49, 48, 48, 48, 48, 48, 48, 48, 48]"
  by code_simp

text \<open>
  Claim C3 as stated fails for a character above 255: its binary form has nine digits, so
  a one-character message needs 137 bits and a cover of 136 bytes is refused.
\<close>

theorem C3_wide_character_counterexample:
  "128 + 8 * length [256 :: nat] \<le> length (replicate 136 (0 :: byte)) \<and>
   embedMessage rawSharp (replicate 136 0, rgba 17 2) [256] = Inl (MessageTooLong 17 1)"
proof -
  have hl: "length (stringToBinary (lengthPrefix (Suc 0))) = 128"
    using stringToBinary_length[of "lengthPrefix (Suc 0)"] lengthPrefix_chars[of _ "Suc 0"]
      lengthPrefix_length[of "Suc 0"] by simp
  have "stringToBinary [256] = [49, 48, 48, 48, 48, 48, 48, 48, 48]"
    by (simp add: stringToBinary_def wide_char_bits padStart_def)
  then have "length (stringToBinary (lengthPrefix (Suc 0) @ [256])) = 137"
    by (simp add: stringToBinary_append hl)
  then show ?thesis
    by (simp add: embedMessage_def rawSharp_def)
qed

section \<open>Extraction from a buffer shorter than its header announces\<close>

lemma and1_cases: "(x::byte) AND 1 = 0 \<or> x AND 1 = 1"
  by (simp add: and_one_eq) (metis even_iff_mod_2_eq_zero odd_iff_mod_2_eq_one)

lemma lsbChar_bit: "lsbChar d i = 48 \<or> lsbChar d i = 49"
  using and1_cases[of "d ! i"] by (auto simp: lsbChar_def)

lemma lsbChar_past_end: "length d \<le> i \<Longrightarrow> lsbChar d i = 48"
  by (simp add: lsbChar_def)

lemma binaryToString_blocks:
  assumes "\<forall>b\<in>set bs. b = 48 \<or> b = 49" "length bs = 8 * L"
  shows "binaryToString bs =
           map (\<lambda>k. fromCharCode (parseInt (take 8 (drop (8 * k) bs)) (Some 2))) [0..<L]"
  using assms
proof (induction L arbitrary: bs)
  case 0
  then show ?case by (simp add: binaryToString_def matchChunks_Nil)
next
  case (Suc L)
  let ?blk = "take 8 bs" and ?rest = "drop 8 bs"
  have len: "length ?blk = 8" using Suc.prems by simp
  have nolt: "\<forall>c\<in>set ?blk. \<not> isLineTerminator c"
  proof
    fix c assume "c \<in> set ?blk"
    then have "c \<in> set bs" by (rule in_set_takeD)
    with Suc.prems have "c = 48 \<or> c = 49" by blast
    then show "\<not> isLineTerminator c" by (auto simp: isLineTerminator_def)
  qed
  have restbits: "\<forall>b\<in>set ?rest. b = 48 \<or> b = 49"
    using Suc.prems(1) by (meson in_set_dropD)
  have restlen: "length ?rest = 8 * L" using Suc.prems by simp
  have IH: "binaryToString ?rest =
      map (\<lambda>k. fromCharCode (parseInt (take 8 (drop (8 * k) ?rest)) (Some 2))) [0..<L]"
    by (rule Suc.IH[OF restbits restlen])
  have "matchChunks bs = ?blk # matchChunks ?rest"
    using matchChunks_block[OF len nolt, of ?rest] by simp
  then have "binaryToString bs = fromCharCode (parseInt ?blk (Some 2)) # binaryToString ?rest"
    by (simp add: binaryToString_def)
  also have "\<dots> = map (\<lambda>k. fromCharCode (parseInt (take 8 (drop (8 * k) bs)) (Some 2))) [0..<Suc L]"
    by (simp only: IH upt_conv_Cons[of 0 "Suc L"] map_Suc_upt[symmetric] list.map map_map o_def)
       (simp add: add.commute)
  finally show ?case .
qed

lemma parseInt_zero_block: "parseInt (replicate 8 48) (Some 2) = Some 0"
proof -
  have "parseInt (map digitChar (replicate 8 0)) (Some 2) = Some (int (digitsValue 2 (replicate 8 0)))"
    by (rule parseInt_digitChars) simp_all
  moreover have "digitsValue 2 (replicate 8 0) = 0"
    using digitsValue_zeros[of 2 8 "[]"] by (simp add: digitsValue_def)
  ultimately show ?thesis by (simp add: digitChar_def)
qed

text \<open>
  Claim C10. For every stego buffer whose 128-bit header decodes to a valid length \<open>L\<close>
  in (0, 10000] but whose raw byte count is smaller than \<open>128 + 8 L\<close>, strict
  \<open>extractMessage\<close> raises no error and uses the length \<open>L\<close> of the header (no length
  recovery): every bit position past the end of the buffer reads as \<open>'0'\<close>, and the
  message returned has exactly \<open>L\<close> characters, of which every one lying wholly past the
  end of the buffer is NUL (code point 0).
\<close>

theorem C10_short_buffer:
  assumes raw: "rawAlpha sh img = Inr (d, info)"
    and hdr: "parseInt (binaryToString (map (lsbChar d) [0..<128])) None = Some (int L)"
    and L: "0 < L" "L \<le> 10000"
    and short: "length d < 128 + 8 * L"
  shows "\<exists>x. extractMessage sh img False = Inr x \<and> length (message x) = L
            \<and> (\<forall>k<L. length d \<le> 128 + 8 * k \<longrightarrow> message x ! k = 0)
            \<and> message x = binaryToString (map (lsbChar d) [128..<128 + 8 * L])
            \<and> (\<forall>i\<ge>length d. lsbChar d i = 48)
            \<and> bitsRecovered x = 8 * L \<and> recoveryScore x = 1"
proof -
  let ?bs = "map (lsbChar d) [128..<128 + 8 * L]"
  have valid: "validLength (Some (int L))" using L by (simp add: validLength_def)
  have bits: "\<forall>b\<in>set ?bs. b = 48 \<or> b = 49" using lsbChar_bit by auto
  have blocks: "binaryToString ?bs =
      map (\<lambda>k. fromCharCode (parseInt (take 8 (drop (8 * k) ?bs)) (Some 2))) [0..<L]"
    by (rule binaryToString_blocks[OF bits]) simp
  have ex: "extractMessage sh img False =
      Inr \<lparr> message = binaryToString ?bs, recoveryScore = 1, bitsRecovered = 8 * L,
            wasCorrupted = False,
            x_metadata = \<lparr> xm_messageLength = length (binaryToString ?bs),
                           bitsExtracted = 8 * L + 128 \<rparr> \<rparr>"
    unfolding extractMessage_def
    by (simp add: raw hdr valid Let_def mult.commute)
  have nul: "binaryToString ?bs ! k = 0" if k: "k < L" and out: "length d \<le> 128 + 8 * k" for k
  proof -
    have "take 8 (drop (8 * k) ?bs) = map (lsbChar d) [128 + 8 * k..<128 + 8 * k + 8]"
    proof -
      have "drop (8 * k) [128..<128 + 8 * L] = [128 + 8 * k..<128 + 8 * L]"
        by (simp add: drop_upt)
      moreover have "take 8 [128 + 8 * k..<128 + 8 * L] = [128 + 8 * k..<128 + 8 * k + 8]"
        using k by (simp add: take_upt)
      ultimately show ?thesis by (simp add: take_map drop_map)
    qed
    also have "\<dots> = replicate 8 48"
      using out by (intro replicate_eqI) (auto simp: lsbChar_past_end)
    finally have "take 8 (drop (8 * k) ?bs) = replicate 8 48" .
    then show ?thesis using k by (simp add: blocks parseInt_zero_block fromCharCode_def)
  qed
  show ?thesis
    using nul by (simp add: ex blocks lsbChar_past_end)
qed

lemma lsbChar_bytesOfBits:
  assumes "i < length bits" "\<forall>b\<in>set bits. b = 48 \<or> b = 49"
  shows "lsbChar (bytesOfBits bits) i = bits ! i"
proof -
  have "bits ! i = 48 \<or> bits ! i = 49" using assms by simp
  then show ?thesis using assms(1) by (auto simp: lsbChar_def bytesOfBits_def)
qed

lemma lsbChars_bytesOfBits:
  assumes "a + k \<le> length bits" "\<forall>b\<in>set bits. b = 48 \<or> b = 49"
  shows "map (lsbChar (bytesOfBits bits)) [a..<a + k] = take k (drop a bits)"
proof (rule nth_equalityI)
  show "length (map (lsbChar (bytesOfBits bits)) [a..<a + k]) = length (take k (drop a bits))"
    using assms by simp
next
  fix i assume "i < length (map (lsbChar (bytesOfBits bits)) [a..<a + k])"
  then have i: "i < k" by simp
  then have "lsbChar (bytesOfBits bits) (a + i) = bits ! (a + i)"
    using assms by (intro lsbChar_bytesOfBits) simp_all
  then show "map (lsbChar (bytesOfBits bits)) [a..<a + k] ! i = take k (drop a bits) ! i"
    using i assms by simp
qed

lemma bytesOfBits_header:
  assumes "n < 10 ^ 16"
  shows "parseInt (binaryToString (map (lsbChar (bytesOfBits (stringToBinary (lengthPrefix n @ m))))
            [0..<128])) None = Some (int n)"
proof -
  let ?bits = "stringToBinary (lengthPrefix n @ m)"
  have hc: "\<forall>c\<in>set (lengthPrefix n). c < 256" using lengthPrefix_chars by blast
  have hl: "length (stringToBinary (lengthPrefix n)) = 128"
    using stringToBinary_length[OF hc] lengthPrefix_length[OF assms] by simp
  have "map (lsbChar (bytesOfBits ?bits)) [0..<0 + 128] = take 128 (drop 0 ?bits)"
    using hl stringToBinary_bits by (intro lsbChars_bytesOfBits) (auto simp: stringToBinary_append)
  then have "map (lsbChar (bytesOfBits ?bits)) [0..<128] = stringToBinary (lengthPrefix n)"
    using hl by (simp add: stringToBinary_append)
  then show ?thesis
    by (simp only: binaryToString_stringToBinary[OF hc] lengthPrefix_parse)
qed

theorem C10_short_buffer_witness:
  "length (bytesOfBits (stringToBinary (lengthPrefix 2 @ [65]))) < 128 + 8 * 2 \<and>
   (\<exists>x. extractMessage rawSharp (bytesOfBits (stringToBinary (lengthPrefix 2 @ [65])), rgba 17 2) False
          = Inr x \<and> length (message x) = 2 \<and> message x ! 1 = 0)"
proof -
  let ?d = "bytesOfBits (stringToBinary (lengthPrefix 2 @ [65]))"
  have hc: "\<forall>c\<in>set (lengthPrefix 2 @ [65]). c < 256" using lengthPrefix_chars[of _ 2] by auto
  have len: "length ?d = 136"
    using stringToBinary_length[OF hc] lengthPrefix_length[of 2] by (simp add: bytesOfBits_def)
  have hdr: "parseInt (binaryToString (map (lsbChar ?d) [0..<128])) None = Some (int 2)"
    by (rule bytesOfBits_header) simp
  from C10_short_buffer [of rawSharp "(?d, rgba 17 2)" ?d "rgba 17 2" 2, OF rawSharp_raw hdr]
  obtain x where x: "extractMessage rawSharp (?d, rgba 17 2) False = Inr x"
      "length (message x) = 2" "\<forall>k<2. length ?d \<le> 128 + 8 * k \<longrightarrow> message x ! k = 0"
    using len by auto
  from x(3) len have "message x ! 1 = 0" by simp
  with x len show ?thesis by simp
qed

section \<open>Tolerant extraction: corruption with rate 0 and the recovery score\<close>

lemma applyBitCorruption_zero:
  assumes "rawAlpha sh s = Inr (d, info)"
  shows "applyBitCorruption sh rnd s 0 = (Inr (pngOfRaw sh d info), rnd)"
  by (simp add: applyBitCorruption_def assms)

lemma toleranceScore_printable:
  assumes "0 < length m" "9 * length m \<le> 10 * printableCount m"
  shows "toleranceScore m = (if 30 \<le> length m then 1 else real (length m) / 30)"
proof -
  have "real (9 * length m) \<le> real (10 * printableCount m)"
    using assms(2) by (rule of_nat_mono)
  then have "9 / 10 \<le> real (printableCount m) / real (length m)"
    using assms(1) by (simp add: field_simps)
  then show ?thesis
    using assms(1) by (simp add: toleranceScore_def Let_def max_def)
qed

lemma printable_not_corrupted:
  assumes "0 < length m" "9 * length m \<le> 10 * printableCount m"
  shows "\<not> real (printableCount m) / real (length m) < 0.7"
proof -
  have "real (9 * length m) \<le> real (10 * printableCount m)"
    using assms(2) by (rule of_nat_mono)
  then have "9 / 10 \<le> real (printableCount m) / real (length m)"
    using assms(1) by (simp add: field_simps)
  then show ?thesis by simp
qed

lemma embedCorruptExtract_zero:
  assumes raw: "rawAlpha sh cover = Inr (data, info)"
    and lossless: "\<And>d. length d = length data \<Longrightarrow> rawAlpha sh (pngOfRaw sh d info) = Inr (d, info)"
    and chars: "\<forall>c\<in>set m. c < 256"
    and len: "length m < 10 ^ 16"
    and cap: "128 + 8 * length m \<le> length data"
  shows "embedCorruptExtract sh rnd cover m 0 = embedThenExtract sh cover m True"
proof -
  let ?d = "embedLoop (stringToBinary (lengthPrefix (length m) @ m)) 0 data"
  have emb: "embedMessage sh cover m =
     Inr \<lparr> stegoImage = pngOfRaw sh ?d info,
           metadata = \<lparr> em_messageLength = length m, bitsUsed = 128 + 8 * length m,
                        capacity = length data \<rparr> \<rparr>"
    using cap by (simp add: embedMessage_result[OF raw chars len])
  have raw': "rawAlpha sh (pngOfRaw sh ?d info) = Inr (?d, info)"
    by (rule lossless) (simp add: embedLoop_length)
  show ?thesis
    unfolding embedCorruptExtract_def embedThenExtract_def
    by (simp add: emb applyBitCorruption_zero[OF raw'])
qed

text \<open>
  Claim C7 (amended). For every stego image that \<open>embedMessage\<close> produces from a message
  of 1 to 10000 characters with code points 0--255 of which at least nine in ten are
  printable ASCII, \<open>applyBitCorruption\<close> with rate 0 draws no random number and leaves
  every byte of the raw buffer unchanged, and tolerant extraction of its output returns
  the original message; the recovery score is 1 when the message has at least 30
  characters and \<open>length / 30\<close> when it is shorter.
\<close>

theorem C7_zero_corruption:
  assumes raw: "rawAlpha sh cover = Inr (data, info)"
    and lossless: "\<And>d. length d = length data \<Longrightarrow> rawAlpha sh (pngOfRaw sh d info) = Inr (d, info)"
    and chars: "\<forall>c\<in>set m. c \<le> 255"
    and n: "0 < length m" "length m \<le> 10000"
    and cap: "128 + 8 * length m \<le> length data"
    and printable: "9 * length m \<le> 10 * printableCount m"
  shows "\<exists>emb s x. embedMessage sh cover m = Inr emb
           \<and> applyBitCorruption sh rnd (stegoImage emb) 0 = (Inr s, rnd)
           \<and> rawAlpha sh s = rawAlpha sh (stegoImage emb)
           \<and> extractMessage sh s True = Inr x
           \<and> message x = m
           \<and> recoveryScore x = (if 30 \<le> length m then 1 else real (length m) / 30)"
proof -
  from chars have c: "\<forall>c\<in>set m. c < 256" by auto
  have len: "length m < 10 ^ 16" using n by simp
  let ?d = "embedLoop (stringToBinary (lengthPrefix (length m) @ m)) 0 data"
  let ?emb = "\<lparr> stegoImage = pngOfRaw sh ?d info,
           metadata = \<lparr> em_messageLength = length m, bitsUsed = 128 + 8 * length m,
                        capacity = length data \<rparr> \<rparr>"
  have emb: "embedMessage sh cover m = Inr ?emb"
    using cap by (simp add: embedMessage_result[OF raw c len])
  have raw': "rawAlpha sh (pngOfRaw sh ?d info) = Inr (?d, info)"
    by (rule lossless) (simp add: embedLoop_length)
  have cor: "applyBitCorruption sh rnd (pngOfRaw sh ?d info) 0 = (Inr (pngOfRaw sh ?d info), rnd)"
    by (rule applyBitCorruption_zero[OF raw'])
  have "embedThenExtract sh cover m True =
          Inr \<lparr> message = m, recoveryScore = toleranceScore m, bitsRecovered = length m * 8,
                wasCorrupted = False,
                x_metadata = \<lparr> xm_messageLength = length m, bitsExtracted = length m * 8 + 128 \<rparr> \<rparr>"
    using printable_not_corrupted[OF n(1) printable]
    by (simp add: embedThenExtract_result[OF raw lossless c n cap] Let_def)
  then have ext: "extractMessage sh (pngOfRaw sh ?d info) True =
          Inr \<lparr> message = m, recoveryScore = toleranceScore m, bitsRecovered = length m * 8,
                wasCorrupted = False,
                x_metadata = \<lparr> xm_messageLength = length m, bitsExtracted = length m * 8 + 128 \<rparr> \<rparr>"
    unfolding embedThenExtract_def by (simp add: emb)
  show ?thesis
    apply (rule exI[of _ ?emb])
    apply (rule exI[of _ "pngOfRaw sh ?d info"])
    apply (simp add: emb cor ext toleranceScore_printable[OF n(1) printable])
    done
qed

lemma printableCount_replicate: "printableCount (replicate k 65) = k"
  by (simp add: printableCount_def isPrintable_def)

theorem C7_zero_corruption_witness:
  "list_all (\<lambda>c. c \<le> 255) (replicate 30 (65 :: nat)) \<and>
   (\<exists>emb s x. embedMessage rawSharp (replicate 368 0, rgba 23 4) (replicate 30 65) = Inr emb
      \<and> applyBitCorruption rawSharp (\<lambda>n. 0) (stegoImage emb) 0 = (Inr s, \<lambda>n. 0)
      \<and> rawAlpha rawSharp s = rawAlpha rawSharp (stegoImage emb)
      \<and> extractMessage rawSharp s True = Inr x
      \<and> message x = replicate 30 65
      \<and> recoveryScore x = 1)"
  using C7_zero_corruption [of rawSharp "(replicate 368 0, rgba 23 4)" "replicate 368 0" "rgba 23 4"
      "replicate 30 65" "\<lambda>n. 0"]
  by (simp add: rawSharp_raw rawSharp_png printableCount_replicate list_all_iff)

text \<open>
  Claim C7 as stated fails for a short message: after corruption with rate 0 the five
  characters of \<open>HELLO\<close> are extracted intact, with recovery score 1/6.
\<close>

theorem C7_short_message_counterexample:
  "embedCorruptExtract rawSharp (\<lambda>n. 0) (replicate 168 0, rgba 7 6) [72, 69, 76, 76, 79] 0 =
     Inr \<lparr> message = [72, 69, 76, 76, 79], recoveryScore = 1 / 6, bitsRecovered = 40,
           wasCorrupted = False,
           x_metadata = \<lparr> xm_messageLength = 5, bitsExtracted = 168 \<rparr> \<rparr>"
proof -
  let ?m = "[72, 69, 76, 76, 79] :: jsstring"
  have pc: "printableCount ?m = 5" by (simp add: printableCount_def isPrintable_def)
  have ts: "toleranceScore ?m = 1 / 6" by (simp add: toleranceScore_def pc)
  have "embedCorruptExtract rawSharp (\<lambda>n. 0) (replicate 168 0, rgba 7 6) ?m 0
          = embedThenExtract rawSharp (replicate 168 0, rgba 7 6) ?m True"
    by (rule embedCorruptExtract_zero[where data = "replicate 168 0" and info = "rgba 7 6"])
       (simp_all add: rawSharp_raw rawSharp_png)
  also have "\<dots> = Inr \<lparr> message = ?m, recoveryScore = 1 / 6, bitsRecovered = 40,
           wasCorrupted = False,
           x_metadata = \<lparr> xm_messageLength = 5, bitsExtracted = 168 \<rparr> \<rparr>"
    by (subst embedThenExtract_result[where data = "replicate 168 0" and info = "rgba 7 6"])
       (simp_all add: rawSharp_raw rawSharp_png pc ts Let_def)
  finally show ?thesis .
qed

text \<open>
  Claim C6, evaluated where it fails. A message of 40 characters of which 32 are printable
  is embedded and extracted in tolerance mode: the message is returned unchanged and
  its printable ratio 0.8 selects the middle branch of the score, which is not clamped:
  \<open>0.8 * 0.6 + (40 / 30) * 0.4 = 76 / 75\<close>, above 1.
\<close>

theorem C6_score_above_one:
  "embedThenExtract rawSharp (replicate 448 0, rgba 14 8) (replicate 32 65 @ replicate 8 200) True =
     Inr \<lparr> message = replicate 32 65 @ replicate 8 200, recoveryScore = 76 / 75,
           bitsRecovered = 320, wasCorrupted = False,
           x_metadata = \<lparr> xm_messageLength = 40, bitsExtracted = 448 \<rparr> \<rparr>"
proof -
  let ?m = "replicate 32 65 @ replicate 8 200 :: jsstring"
  have pc: "printableCount ?m = 32" by (simp add: printableCount_def isPrintable_def)
  have ts: "toleranceScore ?m = 76 / 75" by (simp add: toleranceScore_def pc)
  show ?thesis
    by (subst embedThenExtract_result[where data = "replicate 448 0" and info = "rgba 14 8"])
       (auto simp add: rawSharp_raw rawSharp_png pc ts Let_def)
qed

section \<open>The runner: bookkeeping, robustness score and failures\<close>

lemma transformLoop_Inr:
  "transformLoop sh hidden trs r cur acc = (Inr steps, r') \<Longrightarrow>
     \<exists>outs. length outs = length trs
          \<and> steps = acc @ map2 (recordStep hidden) trs outs
          \<and> (\<forall>out\<in>set outs. \<exists>buf. out = extractMessage sh buf True)"
proof (induction trs arbitrary: r cur acc)
  case Nil
  then show ?case by simp
next
  case (Cons tr trs)
  obtain res r1 where app: "applyTransform sh r cur tr = (res, r1)" by (cases "applyTransform sh r cur tr")
  show ?case
  proof (cases res)
    case (Inl e)
    with Cons.prems app show ?thesis by simp
  next
    case (Inr img')
    let ?out = "extractMessage sh (buffer img') True"
    from Cons.prems app Inr
    have "transformLoop sh hidden trs r1 img' (acc @ [recordStep hidden tr ?out]) = (Inr steps, r')"
      by (simp add: extractionStep_def)
    from Cons.IH[OF this] obtain outs where outs: "length outs = length trs"
      "steps = (acc @ [recordStep hidden tr ?out]) @ map2 (recordStep hidden) trs outs"
      "\<forall>out\<in>set outs. \<exists>buf. out = extractMessage sh buf True" by blast
    show ?thesis
      by (rule exI[of _ "?out # outs"]) (use outs in auto)
  qed
qed

lemma toleranceScore_nonneg: "0 \<le> toleranceScore m"
  by (simp add: toleranceScore_def Let_def)

lemma extractMessage_score_nonneg:
  assumes "extractMessage sh buf True = Inr x"
  shows "0 \<le> recoveryScore x"
proof -
  from assms obtain m where "recoveryScore x = toleranceScore m"
    unfolding extractMessage_def
    by (auto simp: Let_def split: sum.splits prod.splits if_splits)
  then show ?thesis by (simp add: toleranceScore_nonneg)
qed

lemma recordStep_contribution:
  assumes "\<And>x. out = Inr x \<Longrightarrow> 0 \<le> recoveryScore x"
  shows "(if extractionSuccess (recordStep hidden tr out) then 1
          else if partialRecovery (recordStep hidden tr out) \<and> step_recoveryScore (recordStep hidden tr out) > 0
          then step_recoveryScore (recordStep hidden tr out) else 0)
         = specContribution hidden out"
proof (cases out)
  case (Inl e)
  then show ?thesis by (simp add: recordStep_def specContribution_def)
next
  case (Inr x)
  with assms have "0 \<le> recoveryScore x" by simp
  with Inr show ?thesis by (auto simp: recordStep_def specContribution_def Let_def)
qed

lemma foldl_contribution:
  "foldl (\<lambda>total t. if extractionSuccess t then total + 1.0
                       else if partialRecovery t \<and> step_recoveryScore t > 0
                       then total + step_recoveryScore t
                       else total) a steps
   = a + sum_list (map (\<lambda>t. if extractionSuccess t then 1
          else if partialRecovery t \<and> step_recoveryScore t > 0
          then step_recoveryScore t else 0) steps)"
  by (induction steps arbitrary: a) auto

lemma totalRecoveryScore_outs:
  assumes "length outs = length trs" "\<forall>out\<in>set outs. \<exists>buf. out = extractMessage sh buf True"
  shows "totalRecoveryScore (map2 (recordStep hidden) trs outs)
           = sum_list (map (specContribution hidden) outs)"
  using assms
proof (induction trs outs rule: list_induct2')
  case (4 tr trs out outs)
  from 4(3) obtain buf where "out = extractMessage sh buf True" by auto
  then have nn: "\<And>x. out = Inr x \<Longrightarrow> 0 \<le> recoveryScore x"
    using extractMessage_score_nonneg by metis
  have IH: "totalRecoveryScore (map2 (recordStep hidden) trs outs)
           = sum_list (map (specContribution hidden) outs)"
    using 4 by simp
  show ?case
    using IH recordStep_contribution[OF nn, where hidden = hidden and tr = tr]
    by (simp add: totalRecoveryScore_def foldl_contribution)
qed (simp_all add: totalRecoveryScore_def)

lemma processSample_Inr:
  assumes "processSample sh demo cfg r i img = (Inr s, r')"
  shows "\<exists>outs. length outs = length (cfg_transforms cfg)
          \<and> transforms s = map2 (recordStep (hiddenMessage s)) (cfg_transforms cfg) outs
          \<and> (\<forall>out\<in>set outs. \<exists>buf. out = extractMessage sh buf True)
          \<and> robustnessScore s =
                (if length (cfg_transforms cfg) = 0 then 1
                 else sum_list (map (specContribution (hiddenMessage s)) outs)
                        / real (length (cfg_transforms cfg)))"
proof -
  obtain sr r1 where dr: "dryRun sh demo r img (cfg_message cfg) = (sr, r1)"
    by (cases "dryRun sh demo r img (cfg_message cfg)")
  let ?embedded = "(case originalMessage sr of None \<Rightarrow> False | Some m \<Rightarrow> m \<noteq> [])"
  let ?hidden = "(if ?embedded then originalMessage sr else None)"
  let ?cur = "(case sr_stegoImage sr of Some b \<Rightarrow> img\<lparr> buffer := b \<rparr> | None \<Rightarrow> img)"
  obtain res r2 where tl: "transformLoop sh ?hidden (cfg_transforms cfg) r1 ?cur [] = (res, r2)"
    by (cases "transformLoop sh ?hidden (cfg_transforms cfg) r1 ?cur []")
  from assms dr tl obtain steps where res: "res = Inr steps"
    by (cases res) (auto simp: processSample_def Let_def)
  from assms dr tl res have s: "transforms s = steps" "hiddenMessage s = ?hidden"
    "robustnessScore s = (if length (cfg_transforms cfg) > 0
                       then totalRecoveryScore steps / real (length (cfg_transforms cfg))
                       else 1.0)"
    by (auto simp: processSample_def Let_def)
  from transformLoop_Inr[OF tl[unfolded res]] obtain outs where outs:
    "length outs = length (cfg_transforms cfg)"
    "steps = map2 (recordStep ?hidden) (cfg_transforms cfg) outs"
    "\<forall>out\<in>set outs. \<exists>buf. out = extractMessage sh buf True" by auto
  have "totalRecoveryScore steps = sum_list (map (specContribution ?hidden) outs)"
    unfolding outs(2) by (rule totalRecoveryScore_outs[OF outs(1) outs(3)])
  with s outs show ?thesis
    by (intro exI[of _ outs]) auto
qed

lemma runImages_samples:
  assumes "runImages sh demo cfg r i imgs acc = (res, r')"
    and "s \<in> set (case res of Inr done \<Rightarrow> done | Inl (e, done) \<Rightarrow> done)"
  shows "s \<in> set acc \<or> (\<exists>r0 i0 img r1. processSample sh demo cfg r0 i0 img = (Inr s, r1))"
  using assms
proof (induction imgs arbitrary: r i acc)
  case Nil
  then show ?case by auto
next
  case (Cons img rest)
  obtain ps r1 where ps: "processSample sh demo cfg r i img = (ps, r1)"
    by (cases "processSample sh demo cfg r i img")
  show ?case
  proof (cases ps)
    case (Inl e)
    with Cons.prems ps show ?thesis by auto
  next
    case (Inr s')
    with Cons.prems ps have "runImages sh demo cfg r1 (Suc i) rest (acc @ [s']) = (res, r')" by simp
    from Cons.IH[OF this Cons.prems(2)] ps Inr show ?thesis by auto
  qed
qed

lemma runDryRun_samples:
  assumes "s \<in> set (samples (outcomeResults (runDryRun sh demo cfg r images)))"
  shows "\<exists>r0 i0 img r1. processSample sh demo cfg r0 i0 img = (Inr s, r1)"
proof -
  obtain res r' where ri: "runImages sh demo cfg r 0 images [] = (res, r')"
    by (cases "runImages sh demo cfg r 0 images []")
  from assms ri have "s \<in> set (case res of Inr done \<Rightarrow> done | Inl (e, done) \<Rightarrow> done)"
    by (auto simp: runDryRun_def outcomeResults_def split: sum.splits prod.splits)
  from runImages_samples[OF ri this] show ?thesis by simp
qed

text \<open>
  Claim C5. For every sample recorded by a run with a configured chain of \<open>N\<close>
  transforms, the sample's list of per-step results has exactly \<open>N\<close> entries, in the
  order of the configured transforms (each entry records its transform and that
  transform's name), whatever the outcome of each step's extraction.
\<close>

theorem C5_one_entry_per_transform:
  assumes "s \<in> set (samples (outcomeResults (runDryRun sh demo cfg r images)))"
  shows "length (transforms s) = length (cfg_transforms cfg)
       \<and> map step_params (transforms s) = cfg_transforms cfg
       \<and> map step_name (transforms s) = map t_name (cfg_transforms cfg)"
proof -
  from runDryRun_samples[OF assms] obtain r0 i0 img r1
    where "processSample sh demo cfg r0 i0 img = (Inr s, r1)" by blast
  from processSample_Inr[OF this] obtain outs where outs:
    "length outs = length (cfg_transforms cfg)"
    "transforms s = map2 (recordStep (hiddenMessage s)) (cfg_transforms cfg) outs" by blast
  have "map step_params (map2 (recordStep h) trs outs) = trs
      \<and> map step_name (map2 (recordStep h) trs outs) = map t_name trs"
    if "length outs = length trs" for h trs and outs :: "(error + extraction) list"
    using that
    by (induction trs outs rule: list_induct2') (auto simp: recordStep_def Let_def split: sum.splits)
  from this[OF outs(1)] outs show ?thesis by simp
qed

text \<open>
  Claim C8. For every sample recorded by a run with \<open>N\<close> configured transforms, the
  recorded steps are the records of \<open>N\<close> tolerant extraction outcomes, and the sample's
  robustness score is the sum over these steps of the contribution (1 when the extracted
  text equals the hidden message, the recovery score when the text is non-empty and
  differs, 0 when extraction failed or returned the empty text) divided by \<open>N\<close>; it is
  exactly 1 when \<open>N = 0\<close>.
\<close>

theorem C8_robustness_score:
  assumes "s \<in> set (samples (outcomeResults (runDryRun sh demo cfg r images)))"
  shows "\<exists>outs. length outs = length (cfg_transforms cfg)
          \<and> transforms s = map2 (recordStep (hiddenMessage s)) (cfg_transforms cfg) outs
          \<and> (\<forall>out\<in>set outs. \<exists>buf. out = extractMessage sh buf True)
          \<and> robustnessScore s =
                (if length (cfg_transforms cfg) = 0 then 1
                 else sum_list (map (specContribution (hiddenMessage s)) outs)
                        / real (length (cfg_transforms cfg)))"
proof -
  from runDryRun_samples[OF assms] obtain r0 i0 img r1
    where "processSample sh demo cfg r0 i0 img = (Inr s, r1)" by blast
  then show ?thesis by (rule processSample_Inr)
qed

lemma runImages_append:
  "runImages sh demo cfg r i pre acc = (Inr done, r1) \<Longrightarrow>
   runImages sh demo cfg r i (pre @ later) acc = runImages sh demo cfg r1 (i + length pre) later done"
proof (induction pre arbitrary: r i acc)
  case Nil
  then show ?case by simp
next
  case (Cons img pre)
  obtain ps r0 where ps: "processSample sh demo cfg r i img = (ps, r0)"
    by (cases "processSample sh demo cfg r i img")
  show ?case
  proof (cases ps)
    case (Inl e)
    with Cons.prems ps show ?thesis by simp
  next
    case (Inr s')
    with Cons.prems ps have "runImages sh demo cfg r0 (Suc i) pre (acc @ [s']) = (Inr done, r1)" by simp
    from Cons.IH[OF this] ps Inr show ?thesis by simp
  qed
qed

text \<open>
  Claim C4 (amended). In a multi-sample run, a failure arising while a sample is processed
  (a transform application that throws, such as \<open>applyJpeg\<close> on a quality out of range)
  is not caught at the sample's boundary: when the samples before it completed, the run
  as a whole throws that error, after marking the results as failed with the error and
  keeping only the samples completed before; the failing sample is not recorded and the
  samples after it are not processed.
\<close>

theorem C4_failure_aborts_run:
  assumes before: "runImages sh demo cfg r 0 pre [] = (Inr done, r1)"
    and fails: "processSample sh demo cfg r1 (length pre) img = (Inl e, r2)"
  shows "runDryRun sh demo cfg r (pre @ img # rest)
           = Threw e \<lparr> status = ''failed'', samples = done, run_error = Some e \<rparr>"
proof -
  have "runImages sh demo cfg r 0 (pre @ img # rest) []
          = runImages sh demo cfg r1 (0 + length pre) (img # rest) done"
    by (rule runImages_append[OF before])
  also have "\<dots> = (Inl (e, done), r2)" using fails by simp
  finally show ?thesis by (simp add: runDryRun_def)
qed

lemma applyTransform_jpeg_out_of_range:
  "100 < q \<Longrightarrow> applyTransform sh r cur (jpegSpec q) = (Inl JpegQualityOutOfRange, r)"
  by (simp add: applyTransform_def jpegSpec_def orElseStr_def orElse_def orDefault_def truthy_def
      applyJpeg_def noParams_def)

lemma dryRun_rng: "snd (dryRun sh demo r img msg) = (\<lambda>n. r (n + 3))"
  by (simp add: dryRun_def Let_def split: sum.splits prod.splits)

lemma processSample_jpeg_out_of_range:
  assumes "cfg_transforms cfg = jpegSpec q # trs" "100 < q"
  shows "processSample sh demo cfg r i img = (Inl JpegQualityOutOfRange, \<lambda>n. r (n + 3))"
proof -
  obtain sr r1 where dr: "dryRun sh demo r img (cfg_message cfg) = (sr, r1)"
    by (cases "dryRun sh demo r img (cfg_message cfg)")
  then have r1: "r1 = (\<lambda>n. r (n + 3))" using dryRun_rng[of sh demo r img "cfg_message cfg"] by simp
  show ?thesis
    by (simp add: processSample_def dr assms applyTransform_jpeg_out_of_range r1)
qed

theorem C4_failure_aborts_run_witness:
  "runImages rawSharp (js ''Demo'') \<lparr> cfg_message = Some [72, 69, 76, 76, 79],
       cfg_transforms = [jpegSpec 150] \<rparr> (\<lambda>n. 0) 0 [] [] = (Inr [], \<lambda>n. 0) \<and>
   runDryRun rawSharp (js ''Demo'') \<lparr> cfg_message = Some [72, 69, 76, 76, 79],
       cfg_transforms = [jpegSpec 150] \<rparr> (\<lambda>n. 0) [solidCover 7 6, solidCover 8 8, solidCover 9 9]
     = Threw JpegQualityOutOfRange
         \<lparr> status = ''failed'', samples = [], run_error = Some JpegQualityOutOfRange \<rparr>"
proof -
  let ?cfg = "\<lparr> cfg_message = Some [72, 69, 76, 76, 79], cfg_transforms = [jpegSpec 150] \<rparr>"
  have before: "runImages rawSharp (js ''Demo'') ?cfg (\<lambda>n. 0) 0 [] [] = (Inr [], \<lambda>n. 0)" by simp
  have fails: "processSample rawSharp (js ''Demo'') ?cfg (\<lambda>n. 0) (length ([] :: (byte list \<times> rawinfo) image list))
                 (solidCover 7 6) = (Inl JpegQualityOutOfRange, \<lambda>n. 0)"
    by (subst processSample_jpeg_out_of_range[where q = 150 and trs = "[]"]) simp_all
  from C4_failure_aborts_run[OF before fails, of "[solidCover 8 8, solidCover 9 9]"] before
  show ?thesis by simp
qed

text \<open>
  Claim C4 as stated fails on a run over two images with the single transform
  \<open>{name: 'jpeg', quality: 101}\<close>: the first sample's failure ends the run, nothing is
  recorded for it and the second image is never processed.
\<close>

theorem C4_sample_failure_counterexample:
  "runDryRun rawSharp (js ''Demo'') \<lparr> cfg_message = Some [72, 69, 76, 76, 79],
       cfg_transforms = [jpegSpec 101] \<rparr> (\<lambda>n. 0) [solidCover 7 6, solidCover 8 8]
     = Threw JpegQualityOutOfRange
         \<lparr> status = ''failed'', samples = [], run_error = Some JpegQualityOutOfRange \<rparr>"
proof -
  let ?cfg = "\<lparr> cfg_message = Some [72, 69, 76, 76, 79], cfg_transforms = [jpegSpec 101] \<rparr>"
  have "processSample rawSharp (js ''Demo'') ?cfg (\<lambda>n. 0) 0 (solidCover 7 6)
          = (Inl JpegQualityOutOfRange, \<lambda>n. 0)"
    by (subst processSample_jpeg_out_of_range[where q = 101 and trs = "[]"]) simp_all
  then show ?thesis by (simp add: runDryRun_def)
qed

lemma applyTransform_jpeg_rawSharp:
  "1 \<le> q \<Longrightarrow> q \<le> 100 \<Longrightarrow>
   applyTransform rawSharp r cur (jpegSpec q)
     = (Inr \<lparr> im_name = im_name cur @ ''_undefined'', buffer = buffer cur \<rparr>, r)"
  by (simp add: applyTransform_def jpegSpec_def orElseStr_def orElse_def orDefault_def truthy_def
      applyJpeg_def noParams_def rawSharp_def)

lemma run_two_jpeg_steps:
  "\<exists>s. runDryRun rawSharp (js ''Demo'') \<lparr> cfg_message = Some [72, 69, 76, 76, 79],
       cfg_transforms = [jpegSpec 80, jpegSpec 50] \<rparr> (\<lambda>n. 0) [solidCover 7 6]
     = Returned \<lparr> status = ''completed'', samples = [s], run_error = None \<rparr>"
  by (simp add: runDryRun_def processSample_def case_prod_beta Let_def
      applyTransform_jpeg_rawSharp)

theorem C5_one_entry_per_transform_witness:
  "samples (outcomeResults (runDryRun rawSharp (js ''Demo'')
       \<lparr> cfg_message = Some [72, 69, 76, 76, 79], cfg_transforms = [jpegSpec 80, jpegSpec 50] \<rparr>
       (\<lambda>n. 0) [solidCover 7 6])) \<noteq> [] \<and>
   map step_params (transforms (hd (samples (outcomeResults (runDryRun rawSharp (js ''Demo'')
       \<lparr> cfg_message = Some [72, 69, 76, 76, 79], cfg_transforms = [jpegSpec 80, jpegSpec 50] \<rparr>
       (\<lambda>n. 0) [solidCover 7 6]))))) = [jpegSpec 80, jpegSpec 50]"
proof -
  let ?run = "runDryRun rawSharp (js ''Demo'')
       \<lparr> cfg_message = Some [72, 69, 76, 76, 79], cfg_transforms = [jpegSpec 80, jpegSpec 50] \<rparr>
       (\<lambda>n. 0) [solidCover 7 6]"
  from run_two_jpeg_steps obtain s where
    "?run = Returned \<lparr> status = ''completed'', samples = [s], run_error = None \<rparr>" by blast
  then have ne: "samples (outcomeResults ?run) \<noteq> []" by (simp add: outcomeResults_def)
  then have "hd (samples (outcomeResults ?run)) \<in> set (samples (outcomeResults ?run))" by simp
  from C5_one_entry_per_transform[OF this] ne show ?thesis by simp
qed

theorem C8_robustness_score_witness:
  "samples (outcomeResults (runDryRun rawSharp (js ''Demo'')
       \<lparr> cfg_message = Some [72, 69, 76, 76, 79], cfg_transforms = [jpegSpec 80, jpegSpec 50] \<rparr>
       (\<lambda>n. 0) [solidCover 7 6])) \<noteq> [] \<and>
   (\<exists>outs. length outs = 2 \<and>
      robustnessScore (hd (samples (outcomeResults (runDryRun rawSharp (js ''Demo'')
       \<lparr> cfg_message = Some [72, 69, 76, 76, 79], cfg_transforms = [jpegSpec 80, jpegSpec 50] \<rparr>
       (\<lambda>n. 0) [solidCover 7 6]))))
      = sum_list (map (specContribution (hiddenMessage (hd (samples (outcomeResults (runDryRun rawSharp (js ''Demo'')
       \<lparr> cfg_message = Some [72, 69, 76, 76, 79], cfg_transforms = [jpegSpec 80, jpegSpec 50] \<rparr>
       (\<lambda>n. 0) [solidCover 7 6])))))) outs) / 2)"
proof -
  let ?run = "runDryRun rawSharp (js ''Demo'')
       \<lparr> cfg_message = Some [72, 69, 76, 76, 79], cfg_transforms = [jpegSpec 80, jpegSpec 50] \<rparr>
       (\<lambda>n. 0) [solidCover 7 6]"
  from run_two_jpeg_steps obtain s where
    "?run = Returned \<lparr> status = ''completed'', samples = [s], run_error = None \<rparr>" by blast
  then have ne: "samples (outcomeResults ?run) \<noteq> []" by (simp add: outcomeResults_def)
  then have "hd (samples (outcomeResults ?run)) \<in> set (samples (outcomeResults ?run))" by simp
  from C8_robustness_score[OF this] obtain outs where
    len: "length outs = length (cfg_transforms \<lparr> cfg_message = Some [72, 69, 76, 76, 79],
            cfg_transforms = [jpegSpec 80, jpegSpec 50] \<rparr>)" and
    sc: "robustnessScore (hd (samples (outcomeResults ?run))) =
          (if length (cfg_transforms \<lparr> cfg_message = Some [72, 69, 76, 76, 79],
                 cfg_transforms = [jpegSpec 80, jpegSpec 50] \<rparr>) = 0 then 1
           else sum_list (map (specContribution (hiddenMessage (hd (samples (outcomeResults ?run))))) outs)
                  / real (length (cfg_transforms \<lparr> cfg_message = Some [72, 69, 76, 76, 79],
                       cfg_transforms = [jpegSpec 80, jpegSpec 50] \<rparr>)))"
    by blast
  from len have len2: "length outs = 2" by simp
  from sc have sc2: "robustnessScore (hd (samples (outcomeResults ?run)))
       = sum_list (map (specContribution (hiddenMessage (hd (samples (outcomeResults ?run))))) outs) / 2"
    by simp
  from ne len2 sc2 show ?thesis by blast
qed

section \<open>Image metrics on identical images\<close>

lemma matchDimensions_same:
  "getMetadata sh x = Inr m \<Longrightarrow> matchDimensions sh x x = Inr x"
  by (simp add: matchDimensions_def)

lemma meanSquaredError_same: "d \<noteq> [] \<Longrightarrow> meanSquaredError d d = Some 0"
  by (simp add: meanSquaredError_def Let_def)

lemma ssimOfRaw_same:
  assumes "d \<noteq> []"
  shows "ssimOfRaw d d = Num 1"
proof -
  let ?n = "length d"
  define mean where "mean = sum_list (map (px d) [0..<?n]) / real ?n"
  define var where "var = sum_list (map (\<lambda>i. (px d i - mean) * (px d i - mean)) [0..<?n]) / real ?n"
  define C1 :: real where "C1 = (0.01 * 255) ^ 2"
  define C2 :: real where "C2 = (0.03 * 255) ^ 2"
  define num where "num = (2 * mean * mean + C1) * (2 * var + C2)"
  define den where "den = (mean * mean + mean * mean + C1) * (var + var + C2)"
  have var0: "0 \<le> var"
    unfolding var_def by (intro divide_nonneg_nonneg sum_list_nonneg) auto
  have C: "0 < C1" "0 < C2" by (simp_all add: C1_def C2_def)
  have eq: "num = den" by (simp add: num_def den_def)
  have m0: "0 \<le> mean * mean" by simp
  have "0 < mean * mean + mean * mean + C1" using m0 C by linarith
  moreover have "0 < var + var + C2" using var0 C by linarith
  ultimately have "0 < den" unfolding den_def by (rule mult_pos_pos)
  then have "num / den = 1" using eq by simp
  then have one: "max 0 (min 1 (num / den)) = 1" by simp
  have "ssimOfRaw d d = Num (max 0 (min 1 (num / den)))"
    using assms
    unfolding ssimOfRaw_def Let_def num_def den_def C1_def C2_def var_def mean_def
    by (simp only: length_0_conv less_irrefl simp_thms if_False)
  then show ?thesis by (simp only: one)
qed

text \<open>
  Claim C9. For every image buffer \<open>x\<close> (one that decodes, to at least one byte),
  \<open>computePSNR(x, x)\<close> returns the \<open>Infinity\<close> sentinel and \<open>computeSSIM(x, x)\<close> returns
  1; for any two images that decode, \<open>computePSNR\<close> returns the sentinel exactly when
  the mean squared error is 0 and otherwise \<open>10 * log10(255^2 / MSE)\<close>. JavaScript
  doubles are taken as real numbers.
\<close>

theorem C9_identical_images:
  assumes meta: "getMetadata sh x = Inr m"
    and raw: "rawPixels sh x = Inr (d, info)"
    and ne: "d \<noteq> []"
    and dims: "matchDimensions sh a b = Inr b'"
    and rawA: "rawPixels sh a = Inr (dataA, infoA)"
    and rawB: "rawPixels sh b' = Inr (dataB, infoB)"
  shows "computePSNR sh x x = Inr PosInfinity
       \<and> computeSSIM sh x x = Inr (Num 1)
       \<and> (computePSNR sh a b = Inr PosInfinity \<longleftrightarrow> meanSquaredError dataA dataB = Some 0)
       \<and> (\<forall>v. meanSquaredError dataA dataB = Some v \<and> v \<noteq> 0
              \<longrightarrow> computePSNR sh a b = Inr (Num (10 * log 10 ((255 * 255) / v))))"
proof -
  have p: "computePSNR sh x x = Inr PosInfinity"
    by (simp add: computePSNR_def matchDimensions_same[OF meta] raw meanSquaredError_same[OF ne])
  have s: "computeSSIM sh x x = Inr (Num 1)"
    by (simp add: computeSSIM_def matchDimensions_same[OF meta] raw ssimOfRaw_same[OF ne])
  have i: "computePSNR sh a b = Inr PosInfinity \<longleftrightarrow> meanSquaredError dataA dataB = Some 0"
    by (cases "meanSquaredError dataA dataB") (simp_all add: computePSNR_def dims rawA rawB)
  have f: "\<forall>v. meanSquaredError dataA dataB = Some v \<and> v \<noteq> 0
              \<longrightarrow> computePSNR sh a b = Inr (Num (10 * log 10 ((255 * 255) / v)))"
    by (simp add: computePSNR_def dims rawA rawB)
  from p s i f show ?thesis by blast
qed

theorem C9_identical_images_witness:
  "computePSNR rawSharp ([10, 20, 30, 40], rgba 1 1) ([10, 20, 30, 40], rgba 1 1) = Inr PosInfinity
   \<and> computeSSIM rawSharp ([10, 20, 30, 40], rgba 1 1) ([10, 20, 30, 40], rgba 1 1) = Inr (Num 1)
   \<and> meanSquaredError [10, 20, 30, 40] [10, 20, 30, 42] = Some 1
   \<and> computePSNR rawSharp ([10, 20, 30, 40], rgba 1 1) ([10, 20, 30, 42], rgba 1 1)
        = Inr (Num (10 * log 10 ((255 * 255) / 1)))"
proof -
  have up: "[0..<4] = [0, 1, 2, 3 :: nat]" by (simp add: upt_rec)
  have mse: "meanSquaredError [10, 20, 30, 40] [10, 20, 30, 42] = Some 1"
    by (simp add: meanSquaredError_def Let_def px_def up)
  have dims: "matchDimensions rawSharp ([10, 20, 30, 40], rgba 1 1) ([10, 20, 30, 42], rgba 1 1)
                = Inr ([10, 20, 30, 42], rgba 1 1)"
    by (simp add: matchDimensions_def rawSharp_def)
  have rawX: "rawPixels rawSharp ([10, 20, 30, 40], rgba 1 1) = Inr ([10, 20, 30, 40], rgba 1 1)"
    by (simp add: rawSharp_def)
  have rawB: "rawPixels rawSharp ([10, 20, 30, 42], rgba 1 1) = Inr ([10, 20, 30, 42], rgba 1 1)"
    by (simp add: rawSharp_def)
  have meta: "getMetadata rawSharp ([10, 20, 30, 40], rgba 1 1) = Inr (rgba 1 1)"
    by (simp add: rawSharp_def)
  have ne: "[10, 20, 30, 40 :: byte] \<noteq> []" by simp
  from C9_identical_images [OF meta rawX ne dims rawX rawB] mse
  show ?thesis by simp
qed

end
